theory Spec2Isabelle
  imports Complex_Main "HOL-Library.Word" "HOL-Library.Log_Nat"
begin

unbundle bit_operations_syntax

section \<open>Data model of ship.py\<close>

text \<open>
  A trace entry is the dictionary built by \<^verbatim>\<open>read_binary\<close> and \<^verbatim>\<open>read_text\<close>. The numeric
  fields are Python integers (unbounded, hence \<open>int\<close>). \<^verbatim>\<open>procId\<close> and \<^verbatim>\<open>connId\<close> are
  either a \<^verbatim>\<open>bytes\<close> object (binary files, one-field text form) or a Python integer
  (two-field text form). The optional \<^verbatim>\<open>'pair'\<close> key is a reference to another entry and
  is kept outside the record, see the pairing section.
\<close>

type_synonym byte = "8 word"

datatype hexdata = Bytes "byte list" | IntVal int

record entry =
  type :: int
  source :: int
  sender :: int
  receiver :: int
  seconds :: int
  microseconds :: int
  signo :: int
  procId :: hexdata
  connId :: hexdata

text \<open>
  The Python exceptions that the modelled functions can raise, and \<^verbatim>\<open>exit(1)\<close>.
  \<open>Unmodelled\<close> is the answer for a named character escape, the one construct whose
  result the model does not determine (see \<open>decode_escapes\<close>).
\<close>

datatype error =
    StructError | ValueError | KeyError | IndexError | TypeError | OverflowError
  | UnicodeDecodeError | UnicodeEncodeError | SystemExit | Unmodelled

text \<open>Lines written to standard error.\<close>

datatype diag = NotValidShipFile | DetectedNewInput | SignalsLost | InitialSignalsLost

definition ITC_SEND :: int where "ITC_SEND = 0"
definition ITC_RECV :: int where "ITC_RECV = 1"

section \<open>The struct module, as far as ship.py uses it\<close>

text \<open>
  Format strings are lists of format characters; the byte order prefix \<^verbatim>\<open><\<close> or \<^verbatim>\<open>>\<close>
  (standard sizes, no alignment) is the \<open>endian\<close> argument.
  \<^verbatim>\<open>H\<close> is an unsigned 16 bit integer, \<^verbatim>\<open>I\<close> an unsigned and \<^verbatim>\<open>i\<close> a signed 32 bit integer,
  \<^verbatim>\<open>x\<close> a pad byte that yields no value and \<^verbatim>\<open>4s\<close> four raw bytes.
\<close>

datatype endian = Little | Big

datatype fmt = Fmt_H | Fmt_x | Fmt_I | Fmt_i | Fmt_4s

datatype field = Num int | Raw "byte list"

fun fmt_size :: "fmt \<Rightarrow> nat" where
  "fmt_size Fmt_H = 2"
| "fmt_size Fmt_x = 1"
| "fmt_size Fmt_I = 4"
| "fmt_size Fmt_i = 4"
| "fmt_size Fmt_4s = 4"

definition calcsize :: "fmt list \<Rightarrow> nat" where
  "calcsize fs = sum_list (map fmt_size fs)"

fun uint_le :: "byte list \<Rightarrow> int" where
  "uint_le [] = 0"
| "uint_le (b # bs) = uint b + 256 * uint_le bs"

definition unpack_uint :: "endian \<Rightarrow> byte list \<Rightarrow> int" where
  "unpack_uint e bs = (case e of Little \<Rightarrow> uint_le bs | Big \<Rightarrow> uint_le (rev bs))"

definition unpack_sint :: "endian \<Rightarrow> byte list \<Rightarrow> int" where
  "unpack_sint e bs =
     (let u = unpack_uint e bs; n = 8 * length bs
      in if u \<ge> 2 ^ (n - 1) then u - 2 ^ n else u)"

fun unpack_field :: "endian \<Rightarrow> fmt \<Rightarrow> byte list \<Rightarrow> field list" where
  "unpack_field e Fmt_H raw = [Num (unpack_uint e raw)]"
| "unpack_field e Fmt_x raw = []"
| "unpack_field e Fmt_I raw = [Num (unpack_uint e raw)]"
| "unpack_field e Fmt_i raw = [Num (unpack_sint e raw)]"
| "unpack_field e Fmt_4s raw = [Raw raw]"

fun unpack_fields :: "endian \<Rightarrow> fmt list \<Rightarrow> byte list \<Rightarrow> field list" where
  "unpack_fields e [] bs = []"
| "unpack_fields e (c # cs) bs =
     unpack_field e c (take (fmt_size c) bs) @ unpack_fields e cs (drop (fmt_size c) bs)"

text \<open>\<^verbatim>\<open>struct.unpack\<close> raises \<^verbatim>\<open>struct.error\<close> unless the buffer has exactly the size of the format.\<close>

definition struct_unpack :: "endian \<Rightarrow> fmt list \<Rightarrow> byte list \<Rightarrow> error + field list" where
  "struct_unpack e fs bs =
     (if length bs \<noteq> calcsize fs then Inl StructError else Inr (unpack_fields e fs bs))"

function chunks :: "nat \<Rightarrow> 'a list \<Rightarrow> 'a list list" where
  "chunks n bs = (if n = 0 \<or> bs = [] then [] else take n bs # chunks n (drop n bs))"
  by pat_completeness auto
termination
  by (relation "measure (\<lambda>(n, bs). length bs)") auto

declare chunks.simps [simp del]

text \<open>
  \<^verbatim>\<open>struct.iter_unpack\<close> raises \<^verbatim>\<open>struct.error\<close> when it is called, before any record is
  produced, unless the buffer length is a multiple of the (non-zero) size of the format.
\<close>

definition struct_iter_unpack :: "endian \<Rightarrow> fmt list \<Rightarrow> byte list \<Rightarrow> error + field list list" where
  "struct_iter_unpack e fs bs =
     (if calcsize fs = 0 \<or> length bs mod calcsize fs \<noteq> 0 then Inl StructError
      else Inr (map (unpack_fields e fs) (chunks (calcsize fs) bs)))"

section \<open>Files and the SHIP header\<close>

text \<open>A file object opened in binary mode: its bytes and the read/write position.\<close>

record ship_file =
  content :: "byte list"
  pos :: nat

text \<open>\<^verbatim>\<open>f.read(n)\<close> returns at most \<open>n\<close> bytes, fewer (possibly none) at the end of the file.\<close>

definition f_read :: "nat \<Rightarrow> ship_file \<Rightarrow> byte list \<times> ship_file" where
  "f_read n f =
     (let data = take n (drop (pos f) (content f))
      in (data, f\<lparr>pos := pos f + length data\<rparr>))"

text \<open>\<^verbatim>\<open>f.read()\<close> returns everything from the position to the end of the file.\<close>

definition f_read_all :: "ship_file \<Rightarrow> byte list \<times> ship_file" where
  "f_read_all f =
     (let data = drop (pos f) (content f)
      in (data, f\<lparr>pos := pos f + length data\<rparr>))"

text \<open>\<^verbatim>\<open>f.write(data)\<close> overwrites from the position on and extends the file when needed.\<close>

definition f_write :: "byte list \<Rightarrow> ship_file \<Rightarrow> ship_file" where
  "f_write data f =
     \<lparr>content = take (pos f) (content f) @ data @ drop (pos f + length data) (content f),
      pos = pos f + length data\<rparr>"

definition SHIP :: "byte list" where
  "SHIP = [0x53, 0x48, 0x49, 0x50]"

text \<open>
  The loop \<^verbatim>\<open>while data != b'SHIP': data = f.read(4)\<close> of \<^verbatim>\<open>find_ship_header\<close>. It has no
  exit other than finding the magic, so it is a partial function: \<open>None\<close> stands for a
  loop that never ends.
\<close>

partial_function (option) scan_ship :: "byte list \<Rightarrow> ship_file \<Rightarrow> ship_file option" where
  "scan_ship data f =
     (if data \<noteq> SHIP then (case f_read 4 f of (data', f') \<Rightarrow> scan_ship data' f')
      else Some f)"

text \<open>
  The part of \<^verbatim>\<open>find_ship_header\<close> after the loop: byte order mark and version. Each
  \<^verbatim>\<open>struct.unpack\<close> raises when fewer than two bytes are left.
\<close>

definition read_header_fields :: "ship_file \<Rightarrow> error + (bool \<times> endian \<times> int) \<times> ship_file" where
  "read_header_fields f =
     (case f_read 2 f of (b, f1) \<Rightarrow>
      (case struct_unpack Little [Fmt_H] b of
         Inr [Num bom] \<Rightarrow>
           (let endian = (if bom = 0xFEFF \<or> bom = 1 then Little else Big)
            in (case f_read 2 f1 of (v, f2) \<Rightarrow>
                (case struct_unpack endian [Fmt_H] v of
                   Inr [Num version] \<Rightarrow>
                     if version = 1 \<or> version = 0 then Inr ((True, endian, 1), f2)
                     else if version = 2 then Inr ((True, endian, 2), f2)
                     else Inr ((False, endian, 0), f2)
                 | Inr _ \<Rightarrow> Inl TypeError
                 | Inl e \<Rightarrow> Inl e)))
       | Inr _ \<Rightarrow> Inl TypeError
       | Inl e \<Rightarrow> Inl e))"

definition find_ship_header :: "ship_file \<Rightarrow> (error + (bool \<times> endian \<times> int) \<times> ship_file) option" where
  "find_ship_header f =
     (case f_read 4 f of (data, f1) \<Rightarrow>
      (case scan_ship data f1 of
         None \<Rightarrow> None
       | Some f2 \<Rightarrow> Some (read_header_fields f2)))"

section \<open>Binary records\<close>

text \<open>The format strings \<^verbatim>\<open>'HxxIIIiiII'\<close> and \<^verbatim>\<open>'iiIIIII4s4s'\<close>.\<close>

definition v1_format :: "fmt list" where
  "v1_format = [Fmt_H, Fmt_x, Fmt_x, Fmt_I, Fmt_I, Fmt_I, Fmt_i, Fmt_i, Fmt_I, Fmt_I]"

definition v2_format :: "fmt list" where
  "v2_format = [Fmt_i, Fmt_i, Fmt_I, Fmt_I, Fmt_I, Fmt_I, Fmt_I, Fmt_4s, Fmt_4s]"

text \<open>
  The dictionary literals of \<^verbatim>\<open>read_binary\<close>: \<^verbatim>\<open>data[k]\<close> is the \<open>k\<close>-th unpacked value.
  A tuple of another shape cannot come out of the two formats; the model answers it
  with \<open>None\<close>.
\<close>

fun entry_v1 :: "field list \<Rightarrow> entry option" where
  "entry_v1 [Num d0, Num d1, Num d2, Num d3, Num d4, Num d5, Num d6, Num d7] =
     Some \<lparr>type = d0, source = d1, sender = d2, receiver = d3, seconds = d4,
           microseconds = d5, signo = d6, procId = Bytes [], connId = Bytes []\<rparr>"
| "entry_v1 _ = None"

fun entry_v2 :: "field list \<Rightarrow> entry option" where
  "entry_v2 [Num d0, Num d1, Num d2, Num d3, Num d4, Num d5, Num d6, Raw d7, Raw d8] =
     Some \<lparr>type = d3, source = d2, sender = d4, receiver = d5, seconds = d0,
           microseconds = d1, signo = d6, procId = Bytes d7, connId = Bytes d8\<rparr>"
| "entry_v2 _ = None"

text \<open>The loop \<^verbatim>\<open>for data in struct.iter_unpack(...)\<close> with its \<^verbatim>\<open>keep_zeros\<close> test.\<close>

fun collect_entries ::
  "(field list \<Rightarrow> entry option) \<Rightarrow> bool \<Rightarrow> field list list \<Rightarrow> entry list \<Rightarrow> error + entry list" where
  "collect_entries mk keep_zeros [] entries = Inr entries"
| "collect_entries mk keep_zeros (data # rest) entries =
     (case mk data of
        None \<Rightarrow> Inl TypeError
      | Some e \<Rightarrow>
          if seconds e \<noteq> 0 \<or> keep_zeros
          then collect_entries mk keep_zeros rest (entries @ [e])
          else collect_entries mk keep_zeros rest entries)"

text \<open>Lines 68 to 87 of \<^verbatim>\<open>read_binary\<close>: \<open>version\<close> and \<open>endian\<close> are \<^verbatim>\<open>header[2]\<close> and \<^verbatim>\<open>header[1]\<close>.\<close>

definition decode_records :: "int \<Rightarrow> endian \<Rightarrow> bool \<Rightarrow> ship_file \<Rightarrow> error + entry list" where
  "decode_records version endian keep_zeros f =
     (if version = 1 then
        (case struct_iter_unpack endian v1_format (fst (f_read_all f)) of
           Inl e \<Rightarrow> Inl e
         | Inr tuples \<Rightarrow> collect_entries entry_v1 keep_zeros tuples [])
      else if version = 2 then
        (case struct_iter_unpack endian v2_format (fst (f_read_all f)) of
           Inl e \<Rightarrow> Inl e
         | Inr tuples \<Rightarrow> collect_entries entry_v2 keep_zeros tuples [])
      else Inr [])"

text \<open>
  \<^verbatim>\<open>read_binary\<close> on a file with the given bytes. The result is what is written to standard
  error and the list of entries; \<open>Inl\<close> is an exception that leaves the function and
  \<open>None\<close> a call that never returns.
\<close>

definition read_binary :: "byte list \<Rightarrow> bool \<Rightarrow> (error + diag list \<times> entry list) option" where
  "read_binary bytes keep_zeros =
     (case find_ship_header \<lparr>content = bytes, pos = 0\<rparr> of
        None \<Rightarrow> None
      | Some (Inl e) \<Rightarrow> Some (Inl e)
      | Some (Inr ((ok, endian, version), f)) \<Rightarrow>
          if \<not> ok then Some (Inr ([NotValidShipFile], []))
          else (case decode_records version endian keep_zeros f of
                  Inl e \<Rightarrow> Some (Inl e)
                | Inr entries \<Rightarrow> Some (Inr ([], entries))))"

text \<open>
  \<^verbatim>\<open>clear_file\<close> on a file with the given bytes: the result is what is written to standard
  error and the bytes of the file afterwards.
\<close>

definition clear_file :: "byte list \<Rightarrow> (error + diag list \<times> byte list) option" where
  "clear_file bytes =
     (case find_ship_header \<lparr>content = bytes, pos = 0\<rparr> of
        None \<Rightarrow> None
      | Some (Inl e) \<Rightarrow> Some (Inl e)
      | Some (Inr ((ok, endian, version), f)) \<Rightarrow>
          if \<not> ok then Some (Inr ([NotValidShipFile], bytes))
          else (let size = length bytes - pos f
                in Some (Inr ([], content (f_write (replicate size 0) f)))))"

section \<open>The tail monitor\<close>

text \<open>
  The inner loop \<^verbatim>\<open>while i < len(entries)\<close> of \<^verbatim>\<open>stream_files\<close>. The state is the list of
  entries printed so far and the flags \<^verbatim>\<open>truncated\<close> and \<^verbatim>\<open>overlaps\<close>. Two entries are
  compared as dictionaries, that is field by field.
\<close>

function poll_loop ::
  "entry list \<Rightarrow> entry list \<Rightarrow> nat \<Rightarrow> entry list \<times> bool \<times> bool \<Rightarrow> entry list \<times> bool \<times> bool" where
  "poll_loop entries previous i (printed, truncated, overlaps) =
     (if i < length entries then
        (let entry = entries ! i in
         if seconds entry \<noteq> 0 \<and> (i \<ge> length previous \<or> previous ! i \<noteq> entry)
         then poll_loop entries previous (i + 1) (printed @ [entry], truncated, overlaps)
         else if seconds entry = 0
         then poll_loop entries previous (i + 1) (printed, False, True)
         else poll_loop entries previous (i + 1) (printed, truncated, True))
      else (printed, truncated, overlaps))"
  by pat_completeness auto
termination
  by (relation "measure (\<lambda>(entries, previous, i, st). length entries - i)") auto

declare poll_loop.simps [simp del]

text \<open>
  One pass of the body of \<^verbatim>\<open>for f in get_input_files(input_files)\<close> for the file \<open>f\<close>,
  where \<open>entries\<close> is what \<^verbatim>\<open>read_binary(f, True)\<close> returned in this poll. The result is
  the lines for standard error, the entries printed, and the updated \<^verbatim>\<open>previous_data\<close>.
\<close>

definition poll_file ::
  "(string \<rightharpoonup> entry list) \<Rightarrow> string \<Rightarrow> entry list
     \<Rightarrow> (diag list \<times> entry list) \<times> (string \<rightharpoonup> entry list)" where
  "poll_file previous_data f entries =
     (case (case previous_data f of Some p \<Rightarrow> ([], p) | None \<Rightarrow> ([DetectedNewInput], []))
      of (d0, previous) \<Rightarrow>
      (case poll_loop entries previous 0 ([], True, False) of (printed, truncated, overlaps) \<Rightarrow>
        ((d0
          @ (if \<not> overlaps \<and> length previous \<noteq> 0 then [SignalsLost] else [])
          @ (if length previous = 0 \<and> truncated then [InitialSignalsLost] else []),
          printed),
         previous_data(f \<mapsto> entries))))"

section \<open>Double precision arithmetic\<close>

text \<open>
  A Python \<^verbatim>\<open>float\<close> is an IEEE 754 binary64 number: 53 significant bits, exponents
  from \<open>- 1022\<close> to \<open>1023\<close>, results rounded to the nearest number, ties to the one with
  an even significand. A finite float is represented by the rational number it
  denotes (the sign of a zero plays no role in a comparison). \<^verbatim>\<open>is_pair\<close> applies only
  a division by \<^verbatim>\<open>1e6\<close> and an addition to converted integers, which never yield a NaN.
\<close>

datatype pyfloat = Finite rat | PosInf | NegInf

text \<open>
  The binary exponent of \<open>x > 0\<close>: the \<open>e\<close> with \<open>2 powi e \<le> x\<close> and \<open>x < 2 powi (e + 1)\<close>,
  from the number of bits of an integer (\<open>bitlen\<close>).
\<close>

definition ilog2 :: "rat \<Rightarrow> int" where
  "ilog2 x = (if 1 \<le> x then bitlen \<lfloor>x\<rfloor> - 1 else - bitlen (\<lceil>1 / x\<rceil> - 1))"

text \<open>The nearest integer, a tie going to the even one.\<close>

definition round_half_even :: "rat \<Rightarrow> int" where
  "round_half_even x =
     (let n = \<lfloor>x\<rfloor>; d = x - of_int n
      in if d < 1 / 2 then n else if 1 / 2 < d then n + 1 else if even n then n else n + 1)"

text \<open>
  The nearest multiple of the unit in the last place of \<open>x > 0\<close>. The unit belongs to the
  exponent of \<open>x\<close>, which is not taken below \<open>- 1022\<close> (subnormal numbers).
\<close>

definition round_pos :: "rat \<Rightarrow> rat" where
  "round_pos x =
     (let e = max (ilog2 x) (- 1022); ulp = 2 powi (e - 52)
      in of_int (round_half_even (x / ulp)) * ulp)"

text \<open>Rounding a number to a float; a result of magnitude \<open>2 ^ 1024\<close> or more is infinite.\<close>

definition round_double :: "rat \<Rightarrow> pyfloat" where
  "round_double x =
     (if x = 0 then Finite 0
      else if 0 < x then (if round_pos x < 2 ^ 1024 then Finite (round_pos x) else PosInf)
      else (if round_pos (- x) < 2 ^ 1024 then Finite (- round_pos (- x)) else NegInf))"

text \<open>
  The conversion of a Python integer that is an operand of a float operation: it
  raises \<^verbatim>\<open>OverflowError\<close> ("int too large to convert to float") when the rounded value
  is out of range.
\<close>

definition float_of_int :: "int \<Rightarrow> error + rat" where
  "float_of_int n =
     (case round_double (of_int n) of Finite r \<Rightarrow> Inr r | PosInf \<Rightarrow> Inl OverflowError
      | NegInf \<Rightarrow> Inl OverflowError)"

text \<open>\<^verbatim>\<open>n / d\<close> for an integer \<open>n\<close> and a finite float \<open>d\<close> that is not zero.\<close>

definition int_truediv_float :: "int \<Rightarrow> rat \<Rightarrow> error + pyfloat" where
  "int_truediv_float n d =
     (case float_of_int n of Inl e \<Rightarrow> Inl e | Inr a \<Rightarrow> Inr (round_double (a / d)))"

text \<open>\<^verbatim>\<open>n + x\<close> for an integer \<open>n\<close> and a float \<open>x\<close>; an overflow of the sum gives an infinity.\<close>

definition int_add_float :: "int \<Rightarrow> pyfloat \<Rightarrow> error + pyfloat" where
  "int_add_float n x =
     (case float_of_int n of
        Inl e \<Rightarrow> Inl e
      | Inr a \<Rightarrow>
          Inr (case x of Finite b \<Rightarrow> round_double (a + b) | PosInf \<Rightarrow> PosInf | NegInf \<Rightarrow> NegInf))"

text \<open>\<^verbatim>\<open>x < y\<close> on floats.\<close>

fun float_less :: "pyfloat \<Rightarrow> pyfloat \<Rightarrow> bool" where
  "float_less (Finite a) (Finite b) = (a < b)"
| "float_less (Finite a) PosInf = True"
| "float_less (Finite a) NegInf = False"
| "float_less PosInf y = False"
| "float_less NegInf (Finite b) = True"
| "float_less NegInf PosInf = True"
| "float_less NegInf NegInf = False"

section \<open>Pairing\<close>

type_synonym key = "int \<times> int \<times> int \<times> hexdata \<times> hexdata"

definition pair_key :: "entry \<Rightarrow> key" where
  "pair_key e = (signo e, sender e, receiver e, procId e, connId e)"

text \<open>
  The expression \<^verbatim>\<open>e['seconds'] + e['microseconds']/1e6\<close> of \<^verbatim>\<open>is_pair\<close>: the division is
  evaluated first, then the sum, each on the double precision value of its integer
  operand.
\<close>

definition timestamp :: "entry \<Rightarrow> error + pyfloat" where
  "timestamp e =
     (case int_truediv_float (microseconds e) 1000000 of
        Inl err \<Rightarrow> Inl err
      | Inr q \<Rightarrow> int_add_float (seconds e) q)"

text \<open>
  \<^verbatim>\<open>find_pairs\<close> works on references to the entries of one list and stores, under the key
  \<^verbatim>\<open>'pair'\<close> of an entry, a reference to another one. An entry is identified by its index
  in \<open>entries\<close>; \<open>links ! i\<close> is \<open>None\<close> when entry \<open>i\<close> has no key \<^verbatim>\<open>'pair'\<close>, and
  \<open>Some j\<close> when its \<^verbatim>\<open>'pair'\<close> is entry \<open>j\<close>.
\<close>

definition is_pair :: "entry list \<Rightarrow> nat option list \<Rightarrow> nat \<Rightarrow> nat \<Rightarrow> error + bool" where
  "is_pair entries links rx tx =
     (if links ! rx = None then
        (case timestamp (entries ! tx) of
           Inl e \<Rightarrow> Inl e
         | Inr sent \<Rightarrow>
             (case timestamp (entries ! rx) of
                Inl e \<Rightarrow> Inl e
              | Inr received \<Rightarrow> Inr (float_less sent received)))
      else Inr False)"

text \<open>The loop \<^verbatim>\<open>for entry in rx: rx_map[pair_key(entry)].append(entry)\<close>.\<close>

fun fill_rx_map ::
  "entry list \<Rightarrow> nat list \<Rightarrow> (key \<rightharpoonup> nat list) \<Rightarrow> error + (key \<rightharpoonup> nat list)" where
  "fill_rx_map entries [] rx_map = Inr rx_map"
| "fill_rx_map entries (j # js) rx_map =
     (case rx_map (pair_key (entries ! j)) of
        None \<Rightarrow> Inl KeyError
      | Some l \<Rightarrow> fill_rx_map entries js (rx_map(pair_key (entries ! j) \<mapsto> l @ [j])))"

text \<open>
  The list \<^verbatim>\<open>[i for i in rx_map[pair_key(entry)] if is_pair(i, entry)]\<close>: the candidates
  are tested in their order, and the first exception ends the evaluation.
\<close>

fun possible_pairs ::
  "entry list \<Rightarrow> nat option list \<Rightarrow> nat \<Rightarrow> nat list \<Rightarrow> error + nat list" where
  "possible_pairs entries links tx [] = Inr []"
| "possible_pairs entries links tx (j # js) =
     (case is_pair entries links j tx of
        Inl e \<Rightarrow> Inl e
      | Inr b \<Rightarrow>
          (case possible_pairs entries links tx js of
             Inl e \<Rightarrow> Inl e
           | Inr rest \<Rightarrow> Inr (if b then j # rest else rest)))"

text \<open>The loop \<^verbatim>\<open>for entry in tx\<close>.\<close>

fun pair_loop ::
  "entry list \<Rightarrow> (key \<rightharpoonup> nat list) \<Rightarrow> nat list \<Rightarrow> nat option list \<Rightarrow> error + nat option list" where
  "pair_loop entries rx_map [] links = Inr links"
| "pair_loop entries rx_map (i # is) links =
     (case rx_map (pair_key (entries ! i)) of
        None \<Rightarrow> Inl KeyError
      | Some candidates \<Rightarrow>
          (case possible_pairs entries links i candidates of
             Inl e \<Rightarrow> Inl e
           | Inr [] \<Rightarrow> pair_loop entries rx_map is links
           | Inr (j # _) \<Rightarrow> pair_loop entries rx_map is (links[i := Some j, j := Some i])))"

text \<open>
  \<^verbatim>\<open>find_pairs\<close>, started with the links the entries already carry (none when the
  entries come from the decoders).
\<close>

definition find_pairs :: "entry list \<Rightarrow> nat option list \<Rightarrow> error + nat option list" where
  "find_pairs entries links =
     (let tx = filter (\<lambda>i. type (entries ! i) = ITC_SEND) [0..<length entries];
          rx = filter (\<lambda>i. type (entries ! i) = ITC_RECV) [0..<length entries];
          rx_keys = set (map pair_key entries)
      in (case fill_rx_map entries rx (\<lambda>k. if k \<in> rx_keys then Some [] else None) of
            Inl e \<Rightarrow> Inl e
          | Inr rx_map \<Rightarrow> pair_loop entries rx_map tx links))"

definition unpaired :: "entry list \<Rightarrow> nat option list" where
  "unpaired entries = replicate (length entries) None"

section \<open>The regular expression of the filter language\<close>

text \<open>
  \<^verbatim>\<open>filter_ids\<close> cuts the filter into tokens with \<^verbatim>\<open>re.finditer\<close>. The constructs its
  regular expression uses are modelled with the backtracking order of Python's \<^verbatim>\<open>re\<close>:
  \<open>One p\<close> is one character of a class, \<open>Rep greedy least p\<close> a repetition of a class
  (\<^verbatim>\<open>*\<close>, \<^verbatim>\<open>+\<close>, \<^verbatim>\<open>*?\<close>), \<open>Opt\<close> is \<^verbatim>\<open>?\<close>, \<open>Group\<close> a named group and \<open>Eos\<close> is \<^verbatim>\<open>$\<close>
  (the end of the string, or the position before a line feed that ends it).
  Strings are lists of code points below 256.
\<close>

datatype re =
    One "char \<Rightarrow> bool"
  | Rep bool nat "char \<Rightarrow> bool"
  | Seq re re
  | Alt re re
  | Opt re
  | Group string re
  | Eos

type_synonym groups = "(string \<times> string) list"

text \<open>
  All the ways in which a regular expression matches a prefix of \<open>s\<close>, in the order in
  which the backtracking matcher tries them: each is the rest of the string and the
  groups that took part, the last one bound first.
\<close>

fun re_match :: "re \<Rightarrow> string \<Rightarrow> groups \<Rightarrow> (string \<times> groups) list" where
  "re_match (One p) s g = (case s of [] \<Rightarrow> [] | c # cs \<Rightarrow> if p c then [(cs, g)] else [])"
| "re_match (Rep greedy least p) s g =
     (let n = length (takeWhile p s);
          counts = filter (\<lambda>k. least \<le> k) (if greedy then rev [0..<n + 1] else [0..<n + 1])
      in map (\<lambda>k. (drop k s, g)) counts)"
| "re_match (Seq a b) s g = concat (map (\<lambda>(s', g'). re_match b s' g') (re_match a s g))"
| "re_match (Alt a b) s g = re_match a s g @ re_match b s g"
| "re_match (Opt a) s g = re_match a s g @ [(s, g)]"
| "re_match (Group name a) s g =
     map (\<lambda>(s', g'). (s', (name, take (length s - length s') s) # g')) (re_match a s g)"
| "re_match Eos s g = (if s = [] \<or> s = [CHR 0x0A] then [(s, g)] else [])"

text \<open>
  \<^verbatim>\<open>re.finditer\<close>: the leftmost match from the current position on, then on from its end.
  The filter expression matches at least one character, so the branch for an empty
  match (where Python moves on by one character) is never taken by it.
\<close>

function finditer :: "re \<Rightarrow> string \<Rightarrow> groups list" where
  "finditer r s =
     (case re_match r s [] of
        [] \<Rightarrow> (case s of [] \<Rightarrow> [] | c # cs \<Rightarrow> finditer r cs)
      | (s', g) # _ \<Rightarrow>
          if length s' < length s then g # finditer r s'
          else g # (case s of [] \<Rightarrow> [] | c # cs \<Rightarrow> finditer r cs))"
  by pat_completeness auto
termination
  by (relation "measure (\<lambda>(r, s). length s)") auto

declare finditer.simps [simp del]

text \<open>\<^verbatim>\<open>match.group(name)\<close>: \<open>None\<close> for a group that took no part in the match.\<close>

definition group :: "groups \<Rightarrow> string \<Rightarrow> string option" where
  "group g name = map_of g name"

text \<open>The classes \<^verbatim>\<open>\s\<close>, \<^verbatim>\<open>\d\<close> and \<^verbatim>\<open>[0-9a-f]\<close> (under \<^verbatim>\<open>re.IGNORECASE\<close>) below code point 256.\<close>

definition is_space :: "char \<Rightarrow> bool" where
  "is_space c = (of_char c \<in> {9, 10, 11, 12, 13, 28, 29, 30, 31, 32, 133, 160 :: nat})"

definition is_digit :: "char \<Rightarrow> bool" where
  "is_digit c = (c \<in> set ''0123456789'')"

definition is_hex_digit :: "char \<Rightarrow> bool" where
  "is_hex_digit c = (c \<in> set ''0123456789abcdefABCDEF'')"

text \<open>\<^verbatim>\<open>0x[0-9a-f]+\<close> and \<^verbatim>\<open>\s*-\s*\<close>.\<close>

definition re_hex :: re where
  "re_hex =
     Seq (One (\<lambda>c. c = CHR ''0''))
    (Seq (One (\<lambda>c. c = CHR ''x'' \<or> c = CHR ''X'')) (Rep True 1 is_hex_digit))"

definition re_dash :: re where
  "re_dash = Seq (Rep True 0 is_space) (Seq (One (\<lambda>c. c = CHR ''-'')) (Rep True 0 is_space))"

text \<open>
  The expression \<^verbatim>\<open>regex\<close> of \<^verbatim>\<open>filter_ids\<close>:
  \<^verbatim>\<open>\s*(?P<ex>[-~])?(?:(?P<dec>\d+)(?:\s*-\s*(?P<dec2>\d+))?\<close>
  \<^verbatim>\<open>|(?P<hex>0x[0-9a-f]+)(?:\s*-\s*(?P<hex2>0x[0-9a-f]+))?|(?P<str>[^, ][^,]*?))\s*(?:,+|$)\<close>.
\<close>

definition filter_regex :: re where
  "filter_regex =
     Seq (Rep True 0 is_space)
    (Seq (Opt (Group ''ex'' (One (\<lambda>c. c = CHR ''-'' \<or> c = CHR ''~''))))
    (Seq (Alt (Seq (Group ''dec'' (Rep True 1 is_digit))
                   (Opt (Seq re_dash (Group ''dec2'' (Rep True 1 is_digit)))))
         (Alt (Seq (Group ''hex'' re_hex)
                   (Opt (Seq re_dash (Group ''hex2'' re_hex))))
              (Group ''str'' (Seq (One (\<lambda>c. c \<noteq> CHR '','' \<and> c \<noteq> CHR '' ''))
                                  (Rep False 0 (\<lambda>c. c \<noteq> CHR '',''))))))
    (Seq (Rep True 0 is_space)
         (Alt (Rep True 1 (\<lambda>c. c = CHR '','')) Eos))))"

section \<open>Python's int()\<close>

text \<open>
  \<^verbatim>\<open>int(s)\<close> and \<^verbatim>\<open>int(s, 16)\<close>: white space around the number is dropped, a sign may come
  first, base 16 accepts the prefix \<^verbatim>\<open>0x\<close>, and single underscores may stand between
  digits (and after the prefix). Anything else raises \<^verbatim>\<open>ValueError\<close>.
\<close>

definition digit_value :: "char \<Rightarrow> int option" where
  "digit_value c =
     (let n = (of_char c :: int) in
      if 48 \<le> n \<and> n \<le> 57 then Some (n - 48)
      else if 97 \<le> n \<and> n \<le> 122 then Some (n - 87)
      else if 65 \<le> n \<and> n \<le> 90 then Some (n - 55)
      else None)"

definition digit_in :: "int \<Rightarrow> char \<Rightarrow> int option" where
  "digit_in base c =
     (case digit_value c of None \<Rightarrow> None | Some v \<Rightarrow> if v < base then Some v else None)"

text \<open>The digits after the first one; \<open>acc\<close> is the value read so far.\<close>

fun py_digits :: "int \<Rightarrow> string \<Rightarrow> int \<Rightarrow> int option" where
  "py_digits base [] acc = Some acc"
| "py_digits base [c] acc =
     (case digit_in base c of None \<Rightarrow> None | Some v \<Rightarrow> Some (acc * base + v))"
| "py_digits base (c # d # ds) acc =
     (if c = CHR ''_''
      then (case digit_in base d of None \<Rightarrow> None | Some v \<Rightarrow> py_digits base ds (acc * base + v))
      else (case digit_in base c of None \<Rightarrow> None | Some v \<Rightarrow> py_digits base (d # ds) (acc * base + v)))"

definition strip :: "string \<Rightarrow> string" where
  "strip s = rev (dropWhile is_space (rev (dropWhile is_space s)))"

definition py_int :: "int \<Rightarrow> string \<Rightarrow> error + int" where
  "py_int base s =
     (let s1 = strip s;
          negative = (take 1 s1 = ''-'');
          s2 = (if take 1 s1 = ''+'' \<or> take 1 s1 = ''-'' then drop 1 s1 else s1);
          s3 = (if base = 16 \<and> (take 2 s2 = ''0x'' \<or> take 2 s2 = ''0X'')
                then (if take 1 (drop 2 s2) = ''_'' then drop 3 s2 else drop 2 s2)
                else s2)
      in (case s3 of
            [] \<Rightarrow> Inl ValueError
          | c # cs \<Rightarrow>
              (case digit_in base c of
                 None \<Rightarrow> Inl ValueError
               | Some v \<Rightarrow>
                   (case py_digits base cs v of
                      None \<Rightarrow> Inl ValueError
                    | Some n \<Rightarrow> Inr (if negative then - n else n)))))"

section \<open>Filter expressions\<close>

text \<open>A Python string is true when it is neither \<^verbatim>\<open>None\<close> nor empty.\<close>

definition truthy :: "string option \<Rightarrow> bool" where
  "truthy v = (v \<noteq> None \<and> v \<noteq> Some [])"

text \<open>The matcher \<^verbatim>\<open>lambda s: s >= lo and s <= hi\<close> of a decimal or hexadecimal token.\<close>

definition range_matcher :: "int \<Rightarrow> string option \<Rightarrow> string option \<Rightarrow> error + (int \<Rightarrow> bool)" where
  "range_matcher base lo_text hi_text =
     (case lo_text of
        None \<Rightarrow> Inl TypeError
      | Some l \<Rightarrow>
          (case py_int base l of
             Inl e \<Rightarrow> Inl e
           | Inr lo \<Rightarrow>
               (case (case hi_text of
                        None \<Rightarrow> Inr lo
                      | Some h \<Rightarrow> if h = [] then Inr lo else py_int base h) of
                  Inl e \<Rightarrow> Inl e
                | Inr hi \<Rightarrow> Inr (\<lambda>s. s \<ge> lo \<and> s \<le> hi))))"

text \<open>
  The matcher of one token. The name pattern of a \<^verbatim>\<open>str\<close> token is compiled by Python's
  \<^verbatim>\<open>re\<close> module, which is not part of the program: \<open>re_compile pattern\<close> is \<open>None\<close> when
  \<^verbatim>\<open>re.compile(pattern, re.IGNORECASE)\<close> raises (the program then calls \<^verbatim>\<open>exit(1)\<close>), and
  otherwise the predicate "\<^verbatim>\<open>expr.search(name)\<close> finds a match".
\<close>

definition token_matcher ::
  "(string \<Rightarrow> (string \<Rightarrow> bool) option) \<Rightarrow> (int \<rightharpoonup> string) \<Rightarrow> groups \<Rightarrow> error + (int \<Rightarrow> bool)" where
  "token_matcher re_compile idmap m =
     (if truthy (group m ''str'') then
        (case re_compile (the (group m ''str'')) of
           None \<Rightarrow> Inl SystemExit
         | Some expr \<Rightarrow>
             Inr (\<lambda>s. expr (case idmap s of Some name \<Rightarrow> name | None \<Rightarrow> ''<unknown>'')))
      else if truthy (group m ''dec'') then range_matcher 10 (group m ''dec'') (group m ''dec2'')
      else range_matcher 16 (group m ''hex'') (group m ''hex2''))"

text \<open>The loop over the matches, numbered from 1, with the state \<^verbatim>\<open>(selected, unselected)\<close>.\<close>

fun filter_loop ::
  "(string \<Rightarrow> (string \<Rightarrow> bool) option) \<Rightarrow> int set \<Rightarrow> (int \<rightharpoonup> string) \<Rightarrow> nat \<Rightarrow> groups list
     \<Rightarrow> int set \<times> int set \<Rightarrow> error + int set \<times> int set" where
  "filter_loop re_compile idset idmap matchNum [] (selected, unselected) = Inr (selected, unselected)"
| "filter_loop re_compile idset idmap matchNum (m # ms) (selected, unselected) =
     (let selected = (if matchNum = 1 \<and> group m ''ex'' \<noteq> Some ''-'' then {} else selected)
      in (case token_matcher re_compile idmap m of
            Inl e \<Rightarrow> Inl e
          | Inr matcher \<Rightarrow>
              if group m ''ex'' = Some ''-'' then
                filter_loop re_compile idset idmap (matchNum + 1) ms
                  (selected - {s \<in> selected. matcher s}, unselected \<union> {s \<in> idset. matcher s})
              else if group m ''ex'' = Some ''~'' then
                filter_loop re_compile idset idmap (matchNum + 1) ms
                  ({s \<in> selected. matcher s}, unselected)
              else
                filter_loop re_compile idset idmap (matchNum + 1) ms
                  (selected \<union> {s \<in> idset. matcher s}, unselected)))"

text \<open>\<^verbatim>\<open>filter_ids(filter, idset, idmap)\<close>; the filter is \<^verbatim>\<open>None\<close> when the option was not given.\<close>

definition filter_ids ::
  "(string \<Rightarrow> (string \<Rightarrow> bool) option) \<Rightarrow> string option \<Rightarrow> int set \<Rightarrow> (int \<rightharpoonup> string)
     \<Rightarrow> error + int set \<times> int set" where
  "filter_ids re_compile filter_text idset idmap =
     (case filter_text of
        None \<Rightarrow> Inr (idset, {})
      | Some text \<Rightarrow>
          if text = [] then Inr (idset, {})
          else filter_loop re_compile idset idmap 1 (finditer filter_regex text) (idset, {}))"

text \<open>
  An instance of \<open>re_compile\<close> for the concrete evaluations below. It covers the patterns
  that are a sequence of ASCII characters without special meaning followed by \<^verbatim>\<open>$\<close>, such
  as \<^verbatim>\<open>cfm$\<close>: the search succeeds when the name ends with these characters, up to the
  case of letters, or does so before a final line feed. No other pattern is used with it.
\<close>

definition to_lower :: "char \<Rightarrow> char" where
  "to_lower c = (let n = (of_char c :: nat) in if 65 \<le> n \<and> n \<le> 90 then char_of (n + 32) else c)"

definition is_plain :: "char \<Rightarrow> bool" where
  "is_plain c = ((of_char c :: nat) < 128 \<and> c \<notin> set ''.^$*+?{}[]|()'' \<and> c \<noteq> CHR 0x5C)"

definition ends_with :: "string \<Rightarrow> string \<Rightarrow> bool" where
  "ends_with s suffix = (length suffix \<le> length s \<and> drop (length s - length suffix) s = suffix)"

definition suffix_search :: "string \<Rightarrow> string \<Rightarrow> bool" where
  "suffix_search literal name =
     (ends_with (map to_lower name) (map to_lower literal)
      \<or> (name \<noteq> [] \<and> last name = CHR 0x0A
          \<and> ends_with (map to_lower (butlast name)) (map to_lower literal)))"

definition re_compile_suffix :: "string \<Rightarrow> (string \<Rightarrow> bool) option" where
  "re_compile_suffix pattern =
     (if pattern \<noteq> [] \<and> last pattern = CHR ''$'' \<and> list_all is_plain (butlast pattern)
      then Some (suffix_search (butlast pattern))
      else None)"

section \<open>Text traces\<close>

text \<open>\<^verbatim>\<open>s.split()\<close>: the maximal runs of characters that are not white space.\<close>

fun split_ws :: "string \<Rightarrow> string \<Rightarrow> string list" where
  "split_ws cur [] = (if cur = [] then [] else [cur])"
| "split_ws cur (c # cs) =
     (if is_space c then (if cur = [] then split_ws [] cs else cur # split_ws [] cs)
      else split_ws (cur @ [c]) cs)"

text \<open>\<^verbatim>\<open>s.split(sep)\<close> for a separator that is not empty (it is a constant at every call).\<close>

function split_sep :: "string \<Rightarrow> string \<Rightarrow> string \<Rightarrow> string list" where
  "split_sep sep cur s =
     (if s = [] then [cur]
      else if sep \<noteq> [] \<and> take (length sep) s = sep
      then cur # split_sep sep [] (drop (length sep) s)
      else split_sep sep (cur @ [hd s]) (tl s))"
  by pat_completeness auto
termination
  by (relation "measure (\<lambda>(sep, cur, s). length s)") auto

declare split_sep.simps [simp del]

text \<open>\<^verbatim>\<open>"\\x%02x" % f\<close>: lower case hexadecimal, padded with zeros to two characters.\<close>

definition hex_char :: "int \<Rightarrow> char" where
  "hex_char d = ''0123456789abcdef'' ! nat d"

function hex_digits :: "int \<Rightarrow> string" where
  "hex_digits n = (if n < 16 then [hex_char n] else hex_digits (n div 16) @ [hex_char (n mod 16)])"
  by pat_completeness auto
termination
  by (relation "measure (\<lambda>n. nat n)") auto

declare hex_digits.simps [simp del]

definition format_x02x :: "int \<Rightarrow> string" where
  "format_x02x f =
     (let body = (if f < 0 then ''-'' @ hex_digits (- f) else hex_digits f)
      in [CHR 0x5C, CHR ''x''] @ replicate (2 - length body) CHR ''0'' @ body)"

text \<open>
  \<^verbatim>\<open>s.encode().decode('unicode-escape')\<close> on a string of code points below 256, as the
  list of the code points of the result. The string is encoded in UTF-8 first: a
  character below 128 is one byte, a character from 128 on is two bytes, and a byte
  that is not part of an escape sequence stands for the code point of its value.
\<close>

definition utf8_units :: "char \<Rightarrow> int list" where
  "utf8_units c =
     (let n = (of_char c :: int) in if n < 128 then [n] else [192 + n div 64, 128 + n mod 64])"

text \<open>
  The escape sequences of one character: backslash, single quote, double quote,
  \<^verbatim>\<open>\b\<close>, \<^verbatim>\<open>\f\<close>, \<^verbatim>\<open>\t\<close>, \<^verbatim>\<open>\n\<close>, \<^verbatim>\<open>\r\<close>, \<^verbatim>\<open>\v\<close>, \<^verbatim>\<open>\a\<close>.
\<close>

definition simple_escapes :: string where
  "simple_escapes = [CHR 0x5C, CHR 0x27, CHR 0x22] @ ''bftnrva''"

definition simple_escape :: "char \<Rightarrow> int" where
  "simple_escape x =
     (if x = CHR ''b'' then 8 else if x = CHR ''f'' then 12 else if x = CHR ''t'' then 9
      else if x = CHR ''n'' then 10 else if x = CHR ''r'' then 13 else if x = CHR ''v'' then 11
      else if x = CHR ''a'' then 7 else of_char x)"

definition is_octal :: "char \<Rightarrow> bool" where
  "is_octal c = (48 \<le> (of_char c :: int) \<and> (of_char c :: int) \<le> 55)"

definition octal_value :: "string \<Rightarrow> int" where
  "octal_value ds = foldl (\<lambda>acc c. acc * 8 + (of_char c - 48)) 0 ds"

text \<open>The value of a string of hexadecimal digits, \<open>None\<close> when a character is not one.\<close>

definition hex_value :: "string \<Rightarrow> int option" where
  "hex_value ds =
     foldl (\<lambda>acc c. case acc of
                      None \<Rightarrow> None
                    | Some a \<Rightarrow> (case digit_in 16 c of None \<Rightarrow> None | Some v \<Rightarrow> Some (a * 16 + v)))
       (Some 0) ds"

definition prepend :: "int list \<Rightarrow> error + int list \<Rightarrow> error + int list" where
  "prepend xs r = (case r of Inl e \<Rightarrow> Inl e | Inr ys \<Rightarrow> Inr (xs @ ys))"

text \<open>
  After a backslash: a line feed is dropped with it; one to three octal digits give
  their value; \<^verbatim>\<open>\x\<close>, \<^verbatim>\<open>\u\<close> and \<^verbatim>\<open>\U\<close> take two, four and eight hexadecimal digits, and
  fewer digits, or a value above \<open>0x10FFFF\<close>, are a \<^verbatim>\<open>UnicodeDecodeError\<close>, as is a
  backslash at the end; any other character is kept together with the backslash.
  \<^verbatim>\<open>\N{name}\<close> is a \<^verbatim>\<open>UnicodeDecodeError\<close> when the name is empty or a brace is missing.
  Otherwise the result depends on the table of the names of the Unicode characters
  (the character of a known name, \<^verbatim>\<open>UnicodeDecodeError\<close> for an unknown one), which is
  not part of this model: the answer is \<open>Unmodelled\<close>, unless the rest of the string
  is a \<^verbatim>\<open>UnicodeDecodeError\<close> in any case.
\<close>

function decode_escapes :: "string \<Rightarrow> error + int list" where
  "decode_escapes [] = Inr []"
| "decode_escapes (c # cs) =
     (if c \<noteq> CHR 0x5C then prepend (utf8_units c) (decode_escapes cs)
      else
        (case cs of
           [] \<Rightarrow> Inl UnicodeDecodeError
         | x # r \<Rightarrow>
             if x = CHR 0x0A then decode_escapes r
             else if x \<in> set simple_escapes then prepend [simple_escape x] (decode_escapes r)
             else if is_octal x then
               (let ds = takeWhile is_octal (take 3 cs)
                in prepend [octal_value ds] (decode_escapes (drop (length ds) cs)))
             else if x = CHR ''x'' \<or> x = CHR ''u'' \<or> x = CHR ''U'' then
               (let n = (if x = CHR ''x'' then 2 else if x = CHR ''u'' then 4 else 8)
                in if length r < n then Inl UnicodeDecodeError
                   else
                     (case hex_value (take n r) of
                        None \<Rightarrow> Inl UnicodeDecodeError
                      | Some v \<Rightarrow>
                          if 0x10FFFF < v then Inl UnicodeDecodeError
                          else prepend [v] (decode_escapes (drop n r))))
             else if x = CHR ''N'' then
               (if take 1 r \<noteq> [CHR 0x7B] then Inl UnicodeDecodeError
                else
                  (let name = takeWhile (\<lambda>d. d \<noteq> CHR 0x7D) (tl r);
                       rest = drop (length name) (tl r)
                   in if name = [] \<or> rest = [] then Inl UnicodeDecodeError
                      else
                        (case decode_escapes (tl rest) of
                           Inl UnicodeDecodeError \<Rightarrow> Inl UnicodeDecodeError
                         | _ \<Rightarrow> Inl Unmodelled)))
             else prepend (92 # utf8_units x) (decode_escapes r)))"
  by pat_completeness auto
termination
  by (relation "measure length") (auto intro: le_imp_less_Suc diff_le_self)

declare decode_escapes.simps [simp del]

text \<open>
  \<^verbatim>\<open>s.encode().decode('unicode-escape').encode('latin1')\<close>: a code point above 255 in
  the decoded string is a \<^verbatim>\<open>UnicodeEncodeError\<close>.
\<close>

definition unicode_escape :: "string \<Rightarrow> error + byte list" where
  "unicode_escape s =
     (case decode_escapes s of
        Inl e \<Rightarrow> Inl e
      | Inr cps \<Rightarrow>
          if list_ex (\<lambda>cp. 255 < cp) cps then Inl UnicodeEncodeError
          else Inr (map word_of_int cps))"

text \<open>\<^verbatim>\<open>[int(f, 16) & int("0xFF", 16) for f in split[1:]]\<close>.\<close>

fun low_bytes :: "string list \<Rightarrow> error + int list" where
  "low_bytes [] = Inr []"
| "low_bytes (f # fs) =
     (case py_int 16 f of
        Inl e \<Rightarrow> Inl e
      | Inr v \<Rightarrow>
          (case py_int 16 ''0xFF'' of
             Inl e \<Rightarrow> Inl e
           | Inr ff \<Rightarrow>
               (case low_bytes fs of
                  Inl e \<Rightarrow> Inl e
                | Inr vs \<Rightarrow> Inr ((v AND ff) # vs))))"

text \<open>
  The branch "handling of bug" of \<^verbatim>\<open>read_text\<close> (lines 121 to 126): the field is cut at
  every \<^verbatim>\<open>\x\<close>, the low byte of each piece is kept, the first four bytes are written
  again as \<^verbatim>\<open>\xHH\<close> and decoded to \<^verbatim>\<open>procId\<close>, the others to \<^verbatim>\<open>connId\<close>.
\<close>

definition repair_hexdata :: "string \<Rightarrow> error + hexdata \<times> hexdata" where
  "repair_hexdata field6 =
     (case low_bytes (tl (split_sep [CHR 0x5C, CHR ''x''] [] field6)) of
        Inl e \<Rightarrow> Inl e
      | Inr fixed \<Rightarrow>
          (let fixed_proc_string = concat (map format_x02x (take 4 fixed));
               fixed_conn_string = concat (map format_x02x (drop 4 fixed))
           in (case unicode_escape fixed_proc_string of
                 Inl e \<Rightarrow> Inl e
               | Inr p \<Rightarrow>
                   (case unicode_escape fixed_conn_string of
                      Inl e \<Rightarrow> Inl e
                    | Inr c \<Rightarrow> Inr (Bytes p, Bytes c)))))"

text \<open>
  Lines 115 to 132 of \<^verbatim>\<open>read_text\<close>: \<^verbatim>\<open>procId\<close> and \<^verbatim>\<open>connId\<close> from the fields after the
  sixth one.
\<close>

definition hexdata_fields :: "string list \<Rightarrow> error + hexdata \<times> hexdata" where
  "hexdata_fields flds =
     (if length flds = 7 then
        (if length (flds ! 6) = 32 then
           (case unicode_escape (take 16 (flds ! 6)) of
              Inl e \<Rightarrow> Inl e
            | Inr p \<Rightarrow>
                (case unicode_escape (drop 16 (flds ! 6)) of
                   Inl e \<Rightarrow> Inl e
                 | Inr c \<Rightarrow> Inr (Bytes p, Bytes c)))
         else repair_hexdata (flds ! 6))
      else if length flds = 8 then
        (case py_int 10 (flds ! 6) of
           Inl e \<Rightarrow> Inl e
         | Inr p \<Rightarrow>
             (case py_int 10 (flds ! 7) of
                Inl e \<Rightarrow> Inl e
              | Inr c \<Rightarrow> Inr (IntVal p, IntVal c)))
      else Inr (Bytes [], Bytes []))"

text \<open>\<^verbatim>\<open>int(xs[i])\<close> and \<^verbatim>\<open>int(xs[i], 16)\<close>, with the \<^verbatim>\<open>IndexError\<close> of a missing field.\<close>

definition int_at :: "int \<Rightarrow> string list \<Rightarrow> nat \<Rightarrow> error + int" where
  "int_at base xs i = (if i < length xs then py_int base (xs ! i) else Inl IndexError)"

text \<open>
  The body of the loop of \<^verbatim>\<open>read_text\<close> for one line: \<open>None\<close> when the line is skipped
  (\<^verbatim>\<open>continue\<close>), otherwise the entry that is appended. The dictionary literal evaluates
  its values from left to right.
\<close>

definition read_text_line :: "string \<Rightarrow> error + entry option" where
  "read_text_line line0 =
     (let line = hd (split_sep ''#'' [] line0) in
      if line = [] then Inr None
      else
        (let flds = split_ws [] line in
         if flds = [] then Inl IndexError
         else
           (let timestamp = split_sep ''.'' [] (flds ! 0) in
            (case int_at 10 timestamp 0 of Inl e \<Rightarrow> Inl e | Inr sec \<Rightarrow>
            (case int_at 10 timestamp 1 of Inl e \<Rightarrow> Inl e | Inr usec \<Rightarrow>
            (case int_at 10 flds 1 of Inl e \<Rightarrow> Inl e | Inr ty \<Rightarrow>
            (case int_at 10 flds 2 of Inl e \<Rightarrow> Inl e | Inr src \<Rightarrow>
            (case int_at 10 flds 3 of Inl e \<Rightarrow> Inl e | Inr sndr \<Rightarrow>
            (case int_at 10 flds 4 of Inl e \<Rightarrow> Inl e | Inr rcv \<Rightarrow>
            (case int_at 16 flds 5 of Inl e \<Rightarrow> Inl e | Inr sig \<Rightarrow>
            (case hexdata_fields flds of Inl e \<Rightarrow> Inl e | Inr (p, c) \<Rightarrow>
               Inr (Some \<lparr>type = ty, source = src, sender = sndr, receiver = rcv,
                          seconds = sec, microseconds = usec, signo = sig,
                          procId = p, connId = c\<rparr>))))))))))))"

text \<open>\<^verbatim>\<open>read_text\<close> on the lines that \<^verbatim>\<open>readline\<close> returns (each with its line end).\<close>

fun read_text :: "string list \<Rightarrow> entry list \<Rightarrow> error + entry list" where
  "read_text [] entries = Inr entries"
| "read_text (line # lines) entries =
     (if line = [] then Inr entries
      else
        (case read_text_line line of
           Inl e \<Rightarrow> Inl e
         | Inr None \<Rightarrow> read_text lines entries
         | Inr (Some entry) \<Rightarrow> read_text lines (entries @ [entry])))"

text \<open>The trailing field that the earlier encoder wrote for the bytes 1 to 8.\<close>

definition backslash :: string where
  "backslash = [CHR 0x5C]"

definition legacy_token :: string where
  "legacy_token =
     backslash @ ''xffffff01'' @ backslash @ ''xffffff02'' @ backslash @ ''xffffff03''
     @ backslash @ ''xffffff04'' @ backslash @ ''xffffff05'' @ backslash @ ''xffffff06''
     @ backslash @ ''xffffff07'' @ backslash @ ''xffffff08''"

section \<open>Auxiliary definitions and concrete inputs\<close>

text \<open>Inputs for the evaluations of the tail monitor.\<close>

definition no_previous_data :: "string \<rightharpoonup> entry list" where
  "no_previous_data = Map.empty"

definition unwritten_slot :: entry where
  "unwritten_slot = \<lparr>type = 0, source = 0, sender = 0, receiver = 0, seconds = 0,
     microseconds = 0, signo = 0, procId = Bytes [0, 0, 0, 0], connId = Bytes [0, 0, 0, 0]\<rparr>"

definition written_slot :: entry where
  "written_slot = \<lparr>type = 0, source = 7, sender = 11, receiver = 12, seconds = 1700000000,
     microseconds = 250, signo = 0x17001, procId = Bytes [0, 0, 0, 1], connId = Bytes [0, 0, 0, 2]\<rparr>"

text \<open>A file of five bytes, \<^verbatim>\<open>b'NOPE\n'\<close>, that holds no SHIP magic.\<close>

definition nope_file :: "byte list" where
  "nope_file = [0x4E, 0x4F, 0x50, 0x45, 0x0A]"

text \<open>The eight header bytes of a file of the given byte order and version.\<close>

definition ship_header :: "endian \<Rightarrow> byte \<Rightarrow> byte list" where
  "ship_header e v =
     SHIP @ (case e of Little \<Rightarrow> [0xFF, 0xFE, v, 0] | Big \<Rightarrow> [0xFE, 0xFF, 0, v])"

text \<open>A version 1 record of 32 bytes, little endian, and the entry it stands for.\<close>

definition sample_v1_record :: "byte list" where
  "sample_v1_record =
     [0x01, 0x00,  0x00, 0x00,  0x07, 0x00, 0x00, 0x00,  0x0B, 0x00, 0x00, 0x00,
      0x0C, 0x00, 0x00, 0x00,  0x05, 0x00, 0x00, 0x00,  0xFA, 0x00, 0x00, 0x00,
      0x01, 0x70, 0x01, 0x00,  0x00, 0x00, 0x00, 0x00]"

definition sample_v1_entry :: entry where
  "sample_v1_entry = \<lparr>type = 1, source = 7, sender = 11, receiver = 12, seconds = 5,
     microseconds = 250, signo = 0x17001, procId = Bytes [], connId = Bytes []\<rparr>"

text \<open>
  Writing values as bytes, the inverse of \<open>unpack_uint\<close> and \<open>unpack_sint\<close>: \<open>n\<close> bytes
  in the given byte order, a signed value in two's complement. The program itself
  never writes records; these functions only serve to state what it reads.
\<close>

fun pack_le :: "nat \<Rightarrow> int \<Rightarrow> byte list" where
  "pack_le 0 v = []"
| "pack_le (Suc n) v = word_of_int v # pack_le n (v div 256)"

definition pack_uint :: "endian \<Rightarrow> nat \<Rightarrow> int \<Rightarrow> byte list" where
  "pack_uint e n v = (case e of Little \<Rightarrow> pack_le n v | Big \<Rightarrow> rev (pack_le n v))"

definition pack_sint :: "endian \<Rightarrow> nat \<Rightarrow> int \<Rightarrow> byte list" where
  "pack_sint e n v = pack_uint e n (v mod 2 ^ (8 * n))"

definition u16 :: "int \<Rightarrow> bool" where "u16 v = (0 \<le> v \<and> v < 2 ^ 16)"
definition u32 :: "int \<Rightarrow> bool" where "u32 v = (0 \<le> v \<and> v < 2 ^ 32)"
definition i32 :: "int \<Rightarrow> bool" where "i32 v = (- (2 ^ 31) \<le> v \<and> v < 2 ^ 31)"


text \<open>Bytes with all bits set.\<close>

definition ones_8 :: "byte list" where
  "ones_8 = [0xFF, 0xFF, 0xFF, 0xFF, 0xFF, 0xFF, 0xFF, 0xFF]"

definition ones_24 :: "byte list" where
  "ones_24 = ones_8 @ ones_8 @ ones_8"

text \<open>
  Closed forms of what \<^verbatim>\<open>find_pairs\<close> builds: the indices of the Send and of the Receive
  entries, and the table \<^verbatim>\<open>rx_map\<close> after it has been filled.
\<close>

definition sends :: "entry list \<Rightarrow> nat list" where
  "sends entries = filter (\<lambda>i. type (entries ! i) = ITC_SEND) [0..<length entries]"

definition receives :: "entry list \<Rightarrow> nat list" where
  "receives entries = filter (\<lambda>i. type (entries ! i) = ITC_RECV) [0..<length entries]"

definition receive_table :: "entry list \<Rightarrow> (key \<rightharpoonup> nat list)" where
  "receive_table entries =
     (\<lambda>k. if k \<in> set (map pair_key entries)
          then Some (filter (\<lambda>j. pair_key (entries ! j) = k) (receives entries))
          else None)"

text \<open>
  The comparison \<^verbatim>\<open>sent < received\<close> of \<^verbatim>\<open>is_pair\<close> on the two double precision
  timestamps, false when one of them cannot be computed.
\<close>

definition earlier :: "entry \<Rightarrow> entry \<Rightarrow> bool" where
  "earlier tx rx =
     (case timestamp tx of
        Inl e \<Rightarrow> False
      | Inr sent \<Rightarrow>
          (case timestamp rx of Inl e \<Rightarrow> False | Inr received \<Rightarrow> float_less sent received))"

text \<open>
  The instant of an entry as an exact number of microseconds, and the entries whose
  fields are in the usual range: microseconds below one second, seconds an integer
  that a double holds exactly.
\<close>

definition instant :: "entry \<Rightarrow> int" where
  "instant e = seconds e * 1000000 + microseconds e"

definition normal_time :: "entry \<Rightarrow> bool" where
  "normal_time e = (0 \<le> microseconds e \<and> microseconds e < 1000000 \<and> \<bar>seconds e\<bar> < 2 ^ 53)"

text \<open>
  A link from entry \<open>i\<close> to entry \<open>j\<close> is sound when the two have the same key, one is a
  Send and the other a Receive, and the comparison of the program finds the Send
  strictly earlier.
\<close>

definition link_ok :: "entry list \<Rightarrow> nat \<Rightarrow> nat \<Rightarrow> bool" where
  "link_ok entries i j =
     (j < length entries \<and> pair_key (entries ! i) = pair_key (entries ! j)
      \<and> (type (entries ! i) = ITC_SEND \<and> type (entries ! j) = ITC_RECV
           \<and> earlier (entries ! i) (entries ! j)
         \<or> type (entries ! i) = ITC_RECV \<and> type (entries ! j) = ITC_SEND
           \<and> earlier (entries ! j) (entries ! i)))"

definition links_ok :: "entry list \<Rightarrow> nat option list \<Rightarrow> bool" where
  "links_ok entries links =
     (length links = length entries
      \<and> (\<forall>i < length entries. \<forall>j. links ! i = Some j \<longrightarrow> link_ok entries i j))"

text \<open>Events with one key: a Send and a Receive at the given second and microsecond.\<close>

definition send_at :: "int \<Rightarrow> int \<Rightarrow> entry" where
  "send_at s us = \<lparr>type = ITC_SEND, source = 7, sender = 11, receiver = 12, seconds = s,
     microseconds = us, signo = 0x17001, procId = Bytes [0, 0, 0, 1],
     connId = Bytes [0, 0, 0, 2]\<rparr>"

definition receive_at :: "int \<Rightarrow> int \<Rightarrow> entry" where
  "receive_at s us = \<lparr>type = ITC_RECV, source = 7, sender = 11, receiver = 12, seconds = s,
     microseconds = us, signo = 0x17001, procId = Bytes [0, 0, 0, 1],
     connId = Bytes [0, 0, 0, 2]\<rparr>"

text \<open>Two events with one key whose seconds have 401 digits.\<close>

definition far_send :: entry where
  "far_send = send_at (10 ^ 400) 0"

definition far_receive :: entry where
  "far_receive = receive_at (10 ^ 400) 1"

text \<open>
  The filter of the example in the source, the ids it is applied to and the name table
  in which only \<open>0x17000\<close> has a name.
\<close>

definition cfm_filter :: string where
  "cfm_filter = ''-cfm$, 0x17000-0x17fff, -0x17a34''"

definition cfm_universe :: "int set" where
  "cfm_universe = {0x17000, 0x17001, 0x17a34, 0x18000}"

definition cfm_names :: "int \<rightharpoonup> string" where
  "cfm_names = [0x17000 \<mapsto> ''FOO_CFM'']"

text \<open>A line of a text trace that ends with the legacy field.\<close>

definition legacy_line :: string where
  "legacy_line = ''1700000000.000250 0 7 11 12 0x17001 '' @ legacy_token @ [CHR 0x0A]"

section \<open>Facts about the struct functions\<close>

lemma calcsize_v1: "calcsize v1_format = 32"
  by (simp add: calcsize_def v1_format_def)

lemma calcsize_v2: "calcsize v2_format = 36"
  by (simp add: calcsize_def v2_format_def)

lemma chunks_single_block: "0 < n \<Longrightarrow> length xs = n \<Longrightarrow> chunks n xs = [xs]"
  by (subst chunks.simps, subst chunks.simps) auto

section \<open>The tail monitor: loss of the earliest signals\<close>

lemma poll_loop_truncated:
  "fst (snd (poll_loop entries previous i (printed, truncated, overlaps))) =
     (truncated \<and> (\<forall>k. i \<le> k \<and> k < length entries \<longrightarrow> seconds (entries ! k) \<noteq> 0))"
proof (induction entries previous i "(printed, truncated, overlaps)"
    arbitrary: printed truncated overlaps rule: poll_loop.induct)
  case (1 entries previous i printed truncated overlaps)
  show ?case
  proof (cases "i < length entries")
    case False
    then show ?thesis by (simp add: poll_loop.simps [of entries previous i])
  next
    case True
    have split: "(\<forall>k. i \<le> k \<and> k < length entries \<longrightarrow> seconds (entries ! k) \<noteq> 0) =
       (seconds (entries ! i) \<noteq> 0 \<and>
        (\<forall>k. i + 1 \<le> k \<and> k < length entries \<longrightarrow> seconds (entries ! k) \<noteq> 0))"
    proof (intro iffI conjI allI impI)
      assume a: "\<forall>k. i \<le> k \<and> k < length entries \<longrightarrow> seconds (entries ! k) \<noteq> 0"
      show "seconds (entries ! i) \<noteq> 0" using a True by simp
      fix k assume "i + 1 \<le> k \<and> k < length entries"
      then show "seconds (entries ! k) \<noteq> 0" using a by simp
    next
      fix k
      assume a: "seconds (entries ! i) \<noteq> 0 \<and>
          (\<forall>k. i + 1 \<le> k \<and> k < length entries \<longrightarrow> seconds (entries ! k) \<noteq> 0)"
        and k: "i \<le> k \<and> k < length entries"
      show "seconds (entries ! k) \<noteq> 0"
      proof (cases "k = i")
        case True then show ?thesis using a by simp
      next
        case False then show ?thesis using a k by simp
      qed
    qed
    show ?thesis
      using True 1 unfolding split
      by (subst poll_loop.simps) (auto simp: Let_def)
  qed
qed

text \<open>
  Claim C2, as the code has it. On a poll of a file without a previous snapshot, the
  line "Initial signals may have been lost" is written exactly when no decoded entry has
  \<open>seconds = 0\<close>, that is when the ring is completely written (or holds no record at
  all). A ring that still has unwritten slots is reported as not truncated.
\<close>

theorem initial_loss_iff_no_zero_slot:
  assumes "previous_data f = None"
  shows "(InitialSignalsLost \<in> set (fst (fst (poll_file previous_data f entries))))
     = (\<forall>e \<in> set entries. seconds e \<noteq> 0)"
proof -
  obtain p t ov where r: "poll_loop entries [] 0 ([], True, False) = (p, t, ov)"
    by (cases "poll_loop entries [] 0 ([], True, False)") auto
  have "t = (\<forall>k. k < length entries \<longrightarrow> seconds (entries ! k) \<noteq> 0)"
    using poll_loop_truncated [of entries "[]" 0 "[]" True False] r by simp
  then have "t = (\<forall>e \<in> set entries. seconds e \<noteq> 0)"
    by (metis in_set_conv_nth)
  then show ?thesis using assms r by (simp add: poll_file_def)
qed

theorem initial_loss_iff_no_zero_slot_witness:
  "no_previous_data ''a.ship'' = None
   \<and> InitialSignalsLost \<in> set (fst (fst (poll_file no_previous_data ''a.ship'' [written_slot])))"
  using initial_loss_iff_no_zero_slot [of no_previous_data "''a.ship''" "[written_slot]"]
  by (simp add: no_previous_data_def written_slot_def)

text \<open>
  The claim as the specification states it fails: the first poll of a ring whose
  entries all have \<open>seconds = 0\<close> does not report that initial signals may be lost.
\<close>

theorem initial_loss_all_zero_counterexample:
  "InitialSignalsLost \<notin>
     set (fst (fst (poll_file no_previous_data ''a.ship'' [unwritten_slot, unwritten_slot])))"
  by (simp add: poll_file_def poll_loop.simps no_previous_data_def unwritten_slot_def)

section \<open>Files without the SHIP magic\<close>

text \<open>At the end of the file every further \<^verbatim>\<open>f.read(4)\<close> returns the empty string.\<close>

lemma f_read_at_end:
  "length (content f) \<le> pos f \<Longrightarrow> f_read n f = ([], f)"
  by (simp add: f_read_def)

lemma scan_ship_at_end_aux:
  assumes "scan_ship data f = Some y"
  shows "\<not> (length (content f) \<le> pos f \<and> data \<noteq> SHIP)"
proof (rule scan_ship.raw_induct
    [where P = "\<lambda>d g z. \<not> (length (content g) \<le> pos g \<and> d \<noteq> SHIP)"
       and data = data and f = f and y = y])
  show "scan_ship data f = Some y" by fact
next
  fix scan d g z
  assume IH: "\<And>d g z. scan d g = Some z \<Longrightarrow> \<not> (length (content g) \<le> pos g \<and> d \<noteq> SHIP)"
    and eq: "(if d \<noteq> SHIP then case f_read 4 g of (d', g') \<Rightarrow> scan d' g' else Some g) = Some z"
  show "\<not> (length (content g) \<le> pos g \<and> d \<noteq> SHIP)"
  proof
    assume a: "length (content g) \<le> pos g \<and> d \<noteq> SHIP"
    then have "scan [] g = Some z"
      using eq by (simp add: f_read_at_end)
    from IH [OF this] a show False by (simp add: SHIP_def)
  qed
qed

lemma scan_ship_at_end:
  "length (content f) \<le> pos f \<Longrightarrow> data \<noteq> SHIP \<Longrightarrow> scan_ship data f = None"
  using scan_ship_at_end_aux [of data f] by (cases "scan_ship data f") auto

text \<open>
  The loop reads the file in steps of four bytes from where it starts. When none of
  these blocks is the magic, it never ends.
\<close>

lemma scan_ship_diverges:
  "data \<noteq> SHIP \<Longrightarrow> \<forall>k. take 4 (drop (pos f + 4 * k) (content f)) \<noteq> SHIP
     \<Longrightarrow> scan_ship data f = None"
proof (induction "length (content f) - pos f" arbitrary: data f rule: less_induct)
  case less
  show ?case
  proof (cases "length (content f) \<le> pos f")
    case True
    then show ?thesis using less.prems(1) by (rule scan_ship_at_end)
  next
    case False
    define data' where "data' = take 4 (drop (pos f) (content f))"
    define f' where "f' = f\<lparr>pos := pos f + length data'\<rparr>"
    have rd: "f_read 4 f = (data', f')"
      by (simp add: f_read_def data'_def f'_def Let_def)
    have d': "data' \<noteq> SHIP"
      using less.prems(2) [rule_format, of 0] by (simp add: data'_def)
    have len: "0 < length data'" using False by (simp add: data'_def)
    have step: "scan_ship data f = scan_ship data' f'"
      using less.prems(1) rd by (subst scan_ship.simps) simp
    have "scan_ship data' f' = None"
    proof (cases "length data' = 4")
      case True
      have "\<forall>k. take 4 (drop (pos f' + 4 * k) (content f')) \<noteq> SHIP"
      proof
        fix k
        show "take 4 (drop (pos f' + 4 * k) (content f')) \<noteq> SHIP"
          using less.prems(2) [rule_format, of "Suc k"] True
          by (simp add: f'_def add.assoc)
      qed
      moreover have "length (content f') - pos f' < length (content f) - pos f"
      proof -
        have "pos f' = pos f + length data' \<and> content f' = content f"
          by (simp add: f'_def)
        moreover have "n - (p + l) < n - p" if "\<not> n \<le> p" and "0 < l" for n p l :: nat
          using that by arith
        ultimately show ?thesis using \<open>\<not> length (content f) \<le> pos f\<close> len by metis
      qed
      ultimately show ?thesis using less.hyps d' by blast
    next
      case False
      then have "length (content f') \<le> pos f'"
        by (auto simp: f'_def data'_def min_def split: if_splits)
      then show ?thesis using d' by (rule scan_ship_at_end)
    qed
    then show ?thesis using step by simp
  qed
qed

lemma find_ship_header_diverges:
  assumes "\<forall>i. take 4 (drop i bytes) \<noteq> SHIP"
  shows "find_ship_header \<lparr>content = bytes, pos = 0\<rparr> = None"
proof -
  define data where "data = take 4 bytes"
  define f1 where "f1 = \<lparr>content = bytes, pos = length data\<rparr>"
  have rd: "f_read 4 \<lparr>content = bytes, pos = 0\<rparr> = (data, f1)"
    by (simp add: f_read_def data_def f1_def Let_def)
  have d: "data \<noteq> SHIP" using assms [rule_format, of 0] by (simp add: data_def)
  have "\<forall>k. take 4 (drop (pos f1 + 4 * k) (content f1)) \<noteq> SHIP"
    using assms by (simp add: f1_def)
  then have "scan_ship data f1 = None" using d scan_ship_diverges by blast
  then show ?thesis using rd by (simp add: find_ship_header_def)
qed

text \<open>
  Claim C3 on the code. For a file whose bytes do not contain the magic, the header
  scan does not stop at the end of the file: \<^verbatim>\<open>find_ship_header\<close>, and with it
  \<^verbatim>\<open>clear_file\<close> and \<^verbatim>\<open>read_binary\<close>, never return, so the file is never classified as
  invalid (nor is it modified).
\<close>

theorem no_magic_never_returns:
  assumes "\<forall>i. take 4 (drop i bytes) \<noteq> SHIP"
  shows "find_ship_header \<lparr>content = bytes, pos = 0\<rparr> = None
     \<and> clear_file bytes = None
     \<and> read_binary bytes keep_zeros = None"
  using find_ship_header_diverges [OF assms]
  by (simp add: clear_file_def read_binary_def)

theorem no_magic_never_returns_witness:
  "(\<forall>i. take 4 (drop i nope_file) \<noteq> SHIP)
   \<and> find_ship_header \<lparr>content = nope_file, pos = 0\<rparr> = None
   \<and> clear_file nope_file = None
   \<and> read_binary nope_file False = None"
proof -
  have h: "\<forall>i. take 4 (drop i nope_file) \<noteq> SHIP"
    by (simp add: nope_file_def SHIP_def drop_Cons' take_Cons')
  show ?thesis using h no_magic_never_returns [OF h, of False] by simp
qed

section \<open>Binary files: header, record sizes and truncation\<close>

lemma scan_ship_content:
  assumes "scan_ship data f = Some f'"
  shows "content f' = content f"
proof (rule scan_ship.raw_induct
    [where P = "\<lambda>d g z. content z = content g" and data = data and f = f and y = f'])
  show "scan_ship data f = Some f'" by fact
next
  fix scan d g z
  assume IH: "\<And>d g z. scan d g = Some z \<Longrightarrow> content z = content g"
    and eq: "(if d \<noteq> SHIP then case f_read 4 g of (d', g') \<Rightarrow> scan d' g' else Some g) = Some z"
  show "content z = content g"
  proof (cases "d = SHIP")
    case True
    then show ?thesis using eq by simp
  next
    case False
    then have "scan (fst (f_read 4 g)) (snd (f_read 4 g)) = Some z"
      using eq by (simp add: split_def)
    from IH [OF this] show ?thesis by (simp add: f_read_def Let_def)
  qed
qed

lemma read_header_fields_ok:
  assumes "read_header_fields f = Inr ((True, endian, version), f')"
  shows "content f' = content f \<and> (version = 1 \<or> version = 2)"
  using assms
  by (auto simp: read_header_fields_def f_read_def Let_def
      split: sum.splits list.splits field.splits if_splits)

lemma find_ship_header_ok:
  assumes "find_ship_header \<lparr>content = bytes, pos = 0\<rparr> = Some (Inr ((True, endian, version), f))"
  shows "content f = bytes \<and> (version = 1 \<or> version = 2)"
proof -
  obtain data f1 where rd: "f_read 4 \<lparr>content = bytes, pos = 0\<rparr> = (data, f1)"
    by (cases "f_read 4 \<lparr>content = bytes, pos = 0\<rparr>") auto
  then have c1: "content f1 = bytes" by (auto simp: f_read_def Let_def)
  obtain f2 where sc: "scan_ship data f1 = Some f2"
    and hd: "read_header_fields f2 = Inr ((True, endian, version), f)"
    using assms rd by (auto simp: find_ship_header_def split: option.splits)
  from scan_ship_content [OF sc] c1 read_header_fields_ok [OF hd] show ?thesis by simp
qed

text \<open>
  Claim C4, as the code has it. When the bytes after a valid header are not a multiple
  of the record size (32 bytes for version 1, 36 for version 2), \<^verbatim>\<open>struct.iter_unpack\<close>
  raises before the first record is produced: \<^verbatim>\<open>read_binary\<close> ends with
  \<^verbatim>\<open>struct.error\<close> and returns no entry at all, not the complete records.
\<close>

theorem truncated_file_raises:
  assumes "find_ship_header \<lparr>content = bytes, pos = 0\<rparr> = Some (Inr ((True, endian, version), f))"
    and "(length bytes - pos f) mod (if version = 1 then 32 else 36) \<noteq> 0"
  shows "read_binary bytes keep_zeros = Some (Inl StructError)"
proof -
  from find_ship_header_ok [OF assms(1)]
  have c: "content f = bytes" and v: "version = 1 \<or> version = 2" by simp_all
  have "decode_records version endian keep_zeros f = Inl StructError"
    using v assms(2) c
    by (auto simp: decode_records_def struct_iter_unpack_def f_read_all_def Let_def
        calcsize_v1 calcsize_v2)
  then show ?thesis using assms(1) by (simp add: read_binary_def)
qed

lemma length_ship_header: "length (ship_header e v) = 8"
  by (cases e) (simp_all add: ship_header_def SHIP_def)

lemma find_ship_header_sample:
  "find_ship_header \<lparr>content = ship_header Little 1 @ payload, pos = 0\<rparr>
     = Some (Inr ((True, Little, 1), \<lparr>content = ship_header Little 1 @ payload, pos = 8\<rparr>))"
  apply (simp add: find_ship_header_def f_read_def ship_header_def SHIP_def Let_def)
  apply (subst scan_ship.simps)
  apply (simp add: SHIP_def read_header_fields_def f_read_def struct_unpack_def calcsize_def
      unpack_uint_def Let_def)
  done

lemma decode_sample_v1:
  "decode_records 1 Little keep_zeros \<lparr>content = ship_header Little 1 @ sample_v1_record, pos = 8\<rparr>
     = Inr [sample_v1_entry]"
proof -
  have l: "length sample_v1_record = 32" by (simp add: sample_v1_record_def)
  have u: "unpack_fields Little v1_format sample_v1_record =
      [Num 1, Num 7, Num 11, Num 12, Num 5, Num 250, Num 0x17001, Num 0]"
    by (simp add: v1_format_def sample_v1_record_def unpack_uint_def unpack_sint_def Let_def)
  show ?thesis
    by (simp add: decode_records_def f_read_all_def Let_def length_ship_header
        struct_iter_unpack_def calcsize_v1 l chunks_single_block u sample_v1_entry_def)
qed

theorem truncated_file_raises_witness:
  "find_ship_header \<lparr>content = ship_header Little 1 @ sample_v1_record @ [0x53], pos = 0\<rparr>
     = Some (Inr ((True, Little, 1),
          \<lparr>content = ship_header Little 1 @ sample_v1_record @ [0x53], pos = 8\<rparr>))
   \<and> (length (ship_header Little 1 @ sample_v1_record @ [0x53]) - 8) mod 32 \<noteq> 0
   \<and> read_binary (ship_header Little 1 @ sample_v1_record @ [0x53]) True = Some (Inl StructError)"
proof -
  let ?bytes = "ship_header Little 1 @ sample_v1_record @ [0x53]"
  have h: "find_ship_header \<lparr>content = ?bytes, pos = 0\<rparr>
      = Some (Inr ((True, Little, 1), \<lparr>content = ?bytes, pos = 8\<rparr>))"
    by (rule find_ship_header_sample)
  have m: "(length ?bytes - pos \<lparr>content = ?bytes, pos = 8\<rparr>) mod (if (1::int) = 1 then 32 else 36) \<noteq> 0"
    by (simp add: length_ship_header sample_v1_record_def)
  from truncated_file_raises [OF h m, of True] h m show ?thesis by simp
qed

text \<open>
  The claim as the specification states it fails: a file with one complete record
  decodes to that record, but with one more byte after it nothing is returned.
\<close>

theorem truncated_file_counterexample:
  "read_binary (ship_header Little 1 @ sample_v1_record) False
     = Some (Inr ([], [sample_v1_entry]))
   \<and> read_binary (ship_header Little 1 @ sample_v1_record @ [0x53]) False
     = Some (Inl StructError)"
proof -
  have a: "read_binary (ship_header Little 1 @ sample_v1_record) False
      = Some (Inr ([], [sample_v1_entry]))"
    by (simp add: read_binary_def find_ship_header_sample decode_sample_v1)
  have "(length sample_v1_record + 1) mod 32 \<noteq> 0" by (simp add: sample_v1_record_def)
  then have b: "read_binary (ship_header Little 1 @ sample_v1_record @ [0x53]) False
      = Some (Inl StructError)"
    by (simp add: read_binary_def find_ship_header_sample decode_records_def f_read_all_def
        Let_def struct_iter_unpack_def calcsize_v1 length_ship_header)
  from a b show ?thesis by simp
qed

section \<open>The layout of binary records\<close>

lemma length_pack_le: "length (pack_le n v) = n"
  by (induction n arbitrary: v) simp_all

lemma length_pack_uint: "length (pack_uint e n v) = n"
  by (cases e) (simp_all add: pack_uint_def length_pack_le)

lemma length_pack_sint: "length (pack_sint e n v) = n"
  by (simp add: pack_sint_def length_pack_uint)

lemma uint_le_pack_le: "uint_le (pack_le n v) = v mod 256 ^ n"
proof (induction n arbitrary: v)
  case 0
  show ?case by simp
next
  case (Suc n)
  have "uint (word_of_int v :: byte) = v mod 256"
    by (simp add: uint_word_of_int)
  then have "uint_le (pack_le (Suc n) v) = v mod 256 + 256 * (v div 256 mod 256 ^ n)"
    using Suc by simp
  also have "\<dots> = v mod (256 * 256 ^ n)"
    using zmod_zmult2_eq [of "256 ^ n" v 256] by simp
  finally show ?case by simp
qed

lemma unpack_uint_pack_uint: "unpack_uint e (pack_uint e n v) = v mod 256 ^ n"
  by (cases e) (simp_all add: unpack_uint_def pack_uint_def uint_le_pack_le)

lemma unpack_u16: "u16 v \<Longrightarrow> unpack_uint e (pack_uint e 2 v) = v"
  by (simp add: unpack_uint_pack_uint u16_def)

lemma unpack_u32: "u32 v \<Longrightarrow> unpack_uint e (pack_uint e 4 v) = v"
  by (simp add: unpack_uint_pack_uint u32_def)

lemma unpack_i32:
  assumes "i32 v"
  shows "unpack_sint e (pack_sint e 4 v) = v"
proof -
  have u: "unpack_uint e (pack_sint e 4 v) = v mod 4294967296"
    by (simp add: pack_sint_def unpack_uint_pack_uint)
  have r: "- 2147483648 \<le> v \<and> v < 2147483648" using assms by (simp add: i32_def)
  show ?thesis
  proof (cases "0 \<le> v")
    case True
    then have "v mod 4294967296 = v" using r by simp
    then show ?thesis using u r True by (simp add: unpack_sint_def Let_def length_pack_sint)
  next
    case False
    then have "(v + 4294967296) mod 4294967296 = v + 4294967296"
      using r by (intro mod_pos_pos_trivial) simp_all
    then have "v mod 4294967296 = v + 4294967296" by simp
    then show ?thesis using u r False by (simp add: unpack_sint_def Let_def length_pack_sint)
  qed
qed

lemma unpack_fields_step:
  "length a = fmt_size c \<Longrightarrow>
   unpack_fields e (c # cs) (a @ rest) = unpack_field e c a @ unpack_fields e cs rest"
  by simp

lemma unpack_fields_last:
  "length a = fmt_size c \<Longrightarrow> unpack_fields e [c] a = unpack_field e c a"
  by simp

lemma unpack_fields_pad:
  "unpack_fields e (Fmt_x # cs) (p # rest) = unpack_fields e cs rest"
  by simp

lemma unpack_v1_record:
  assumes "u16 ty" "length pad = 2" "u32 src" "u32 sndr" "u32 rcv" "i32 sec" "i32 usec"
    "u32 sig" "u32 rsv"
  shows "unpack_fields e v1_format
      (pack_uint e 2 ty @ pad @ pack_uint e 4 src @ pack_uint e 4 sndr @ pack_uint e 4 rcv
       @ pack_sint e 4 sec @ pack_sint e 4 usec @ pack_uint e 4 sig @ pack_uint e 4 rsv)
    = [Num ty, Num src, Num sndr, Num rcv, Num sec, Num usec, Num sig, Num rsv]"
proof -
  obtain p1 p2 where pad: "pad = [p1, p2]"
    using assms(2) by (cases pad; cases "tl pad") auto
  show ?thesis
    unfolding v1_format_def pad
    using assms
    by (simp add: unpack_fields_step unpack_fields_pad unpack_fields_last
        length_pack_uint length_pack_sint unpack_u16 unpack_u32 unpack_i32
        del: unpack_fields.simps(2))
qed

lemma unpack_v2_record:
  assumes "i32 sec" "i32 usec" "u32 src" "u32 ty" "u32 sndr" "u32 rcv" "u32 sig"
    "length proc = 4" "length conn = 4"
  shows "unpack_fields e v2_format
      (pack_sint e 4 sec @ pack_sint e 4 usec @ pack_uint e 4 src @ pack_uint e 4 ty
       @ pack_uint e 4 sndr @ pack_uint e 4 rcv @ pack_uint e 4 sig @ proc @ conn)
    = [Num sec, Num usec, Num src, Num ty, Num sndr, Num rcv, Num sig, Raw proc, Raw conn]"
  unfolding v2_format_def
  using assms
  by (simp add: unpack_fields_step unpack_fields_last
      length_pack_uint length_pack_sint unpack_u32 unpack_i32
      del: unpack_fields.simps(2))

lemma decode_one_v1:
  assumes "length r = 32"
    and "unpack_fields e v1_format r
      = [Num ty, Num src, Num sndr, Num rcv, Num sec, Num usec, Num sig, Num rsv]"
  shows "decode_records 1 e True \<lparr>content = r, pos = 0\<rparr>
      = Inr [\<lparr>type = ty, source = src, sender = sndr, receiver = rcv, seconds = sec,
              microseconds = usec, signo = sig, procId = Bytes [], connId = Bytes []\<rparr>]"
  using assms
  by (simp add: decode_records_def f_read_all_def Let_def struct_iter_unpack_def
      calcsize_v1 chunks_single_block)

lemma decode_one_v2:
  assumes "length r = 36"
    and "unpack_fields e v2_format r
      = [Num sec, Num usec, Num src, Num ty, Num sndr, Num rcv, Num sig, Raw proc, Raw conn]"
  shows "decode_records 2 e True \<lparr>content = r, pos = 0\<rparr>
      = Inr [\<lparr>type = ty, source = src, sender = sndr, receiver = rcv, seconds = sec,
              microseconds = usec, signo = sig, procId = Bytes proc, connId = Bytes conn\<rparr>]"
  using assms
  by (simp add: decode_records_def f_read_all_def Let_def struct_iter_unpack_def
      calcsize_v2 chunks_single_block)

text \<open>
  Claim C5, as the code has it. The format \<^verbatim>\<open>'HxxIIIiiII'\<close> of version 1 has 32 bytes
  and reads \<^verbatim>\<open>source\<close>, \<^verbatim>\<open>sender\<close> and \<^verbatim>\<open>receiver\<close> as unsigned 32 bit values; the format
  \<^verbatim>\<open>'iiIIIII4s4s'\<close> of version 2 has 36 bytes. The fields lie in the listed order: a
  record written field by field, in either byte order, decodes to the entry with
  exactly these values.
\<close>

theorem record_layout:
  assumes "u16 ty" "length pad = 2" "u32 src" "u32 sndr" "u32 rcv" "i32 sec" "i32 usec"
    "u32 sig" "u32 rsv" "u32 ty2" "length proc = 4" "length conn = 4"
  shows "calcsize v1_format = 32 \<and> calcsize v2_format = 36
    \<and> decode_records 1 e True
        \<lparr>content = pack_uint e 2 ty @ pad @ pack_uint e 4 src @ pack_uint e 4 sndr
           @ pack_uint e 4 rcv @ pack_sint e 4 sec @ pack_sint e 4 usec
           @ pack_uint e 4 sig @ pack_uint e 4 rsv, pos = 0\<rparr>
      = Inr [\<lparr>type = ty, source = src, sender = sndr, receiver = rcv, seconds = sec,
              microseconds = usec, signo = sig, procId = Bytes [], connId = Bytes []\<rparr>]
    \<and> decode_records 2 e True
        \<lparr>content = pack_sint e 4 sec @ pack_sint e 4 usec @ pack_uint e 4 src
           @ pack_uint e 4 ty2 @ pack_uint e 4 sndr @ pack_uint e 4 rcv
           @ pack_uint e 4 sig @ proc @ conn, pos = 0\<rparr>
      = Inr [\<lparr>type = ty2, source = src, sender = sndr, receiver = rcv, seconds = sec,
              microseconds = usec, signo = sig, procId = Bytes proc, connId = Bytes conn\<rparr>]"
proof -
  let ?r1 = "pack_uint e 2 ty @ pad @ pack_uint e 4 src @ pack_uint e 4 sndr
           @ pack_uint e 4 rcv @ pack_sint e 4 sec @ pack_sint e 4 usec
           @ pack_uint e 4 sig @ pack_uint e 4 rsv"
  let ?r2 = "pack_sint e 4 sec @ pack_sint e 4 usec @ pack_uint e 4 src
           @ pack_uint e 4 ty2 @ pack_uint e 4 sndr @ pack_uint e 4 rcv
           @ pack_uint e 4 sig @ proc @ conn"
  note s1 = calcsize_v1 and s2 = calcsize_v2
  have l1: "length ?r1 = 32"
    using assms(2) by (simp add: length_pack_uint length_pack_sint)
  have l2: "length ?r2 = 36"
    using assms(11,12) by (simp add: length_pack_uint length_pack_sint)
  have u1: "unpack_fields e v1_format ?r1
      = [Num ty, Num src, Num sndr, Num rcv, Num sec, Num usec, Num sig, Num rsv]"
    using assms by (intro unpack_v1_record)
  have u2: "unpack_fields e v2_format ?r2
      = [Num sec, Num usec, Num src, Num ty2, Num sndr, Num rcv, Num sig, Raw proc, Raw conn]"
    using assms by (intro unpack_v2_record)
  have d1: "decode_records 1 e True \<lparr>content = ?r1, pos = 0\<rparr>
      = Inr [\<lparr>type = ty, source = src, sender = sndr, receiver = rcv, seconds = sec,
              microseconds = usec, signo = sig, procId = Bytes [], connId = Bytes []\<rparr>]"
    using l1 u1 by (rule decode_one_v1)
  have d2: "decode_records 2 e True \<lparr>content = ?r2, pos = 0\<rparr>
      = Inr [\<lparr>type = ty2, source = src, sender = sndr, receiver = rcv, seconds = sec,
              microseconds = usec, signo = sig, procId = Bytes proc, connId = Bytes conn\<rparr>]"
    using l2 u2 by (rule decode_one_v2)
  from s1 s2 d1 d2 show ?thesis by blast
qed

theorem record_layout_witness:
  "u16 1 \<and> length [0, 0 :: byte] = 2 \<and> u32 7 \<and> u32 11 \<and> u32 4294967295 \<and> i32 5 \<and> i32 (- 1)
   \<and> u32 0x17001 \<and> u32 0 \<and> u32 65536 \<and> length [1, 2, 3, 4 :: byte] = 4
   \<and> length [5, 6, 7, 8 :: byte] = 4
   \<and> decode_records 1 Big True
        \<lparr>content = pack_uint Big 2 1 @ [0, 0] @ pack_uint Big 4 7 @ pack_uint Big 4 11
           @ pack_uint Big 4 4294967295 @ pack_sint Big 4 5 @ pack_sint Big 4 (- 1)
           @ pack_uint Big 4 0x17001 @ pack_uint Big 4 0, pos = 0\<rparr>
      = Inr [\<lparr>type = 1, source = 7, sender = 11, receiver = 4294967295, seconds = 5,
              microseconds = - 1, signo = 0x17001, procId = Bytes [], connId = Bytes []\<rparr>]
   \<and> decode_records 2 Big True
        \<lparr>content = pack_sint Big 4 5 @ pack_sint Big 4 (- 1) @ pack_uint Big 4 7
           @ pack_uint Big 4 65536 @ pack_uint Big 4 11 @ pack_uint Big 4 4294967295
           @ pack_uint Big 4 0x17001 @ [1, 2, 3, 4] @ [5, 6, 7, 8], pos = 0\<rparr>
      = Inr [\<lparr>type = 65536, source = 7, sender = 11, receiver = 4294967295, seconds = 5,
              microseconds = - 1, signo = 0x17001, procId = Bytes [1, 2, 3, 4],
              connId = Bytes [5, 6, 7, 8]\<rparr>]"
proof -
  have h: "u16 1" "length [0, 0 :: byte] = 2" "u32 7" "u32 11" "u32 4294967295" "i32 5"
    "i32 (- 1)" "u32 0x17001" "u32 0" "u32 65536" "length [1, 2, 3, 4 :: byte] = 4"
    "length [5, 6, 7, 8 :: byte] = 4"
    by (simp_all add: u16_def u32_def i32_def)
  from record_layout [OF h, of Big] h show ?thesis by blast
qed

text \<open>
  The claim as the specification states it fails: 24 bytes are not a version 1 record
  and 32 bytes are not a version 2 record (decoding them raises), and a version 1
  record of 32 bytes whose bits are all set has \<open>source = 4294967295\<close>, not \<open>- 1\<close>.
\<close>

theorem record_size_counterexample:
  "decode_records 1 Little True \<lparr>content = ones_24, pos = 0\<rparr> = Inl StructError
   \<and> decode_records 2 Little True \<lparr>content = ones_24 @ ones_8, pos = 0\<rparr> = Inl StructError
   \<and> decode_records 1 Little True \<lparr>content = ones_24 @ ones_8, pos = 0\<rparr>
      = Inr [\<lparr>type = 65535, source = 4294967295, sender = 4294967295,
              receiver = 4294967295, seconds = - 1, microseconds = - 1,
              signo = 4294967295, procId = Bytes [], connId = Bytes []\<rparr>]"
proof -
  have l24: "length ones_24 = 24" and l32: "length (ones_24 @ ones_8) = 32"
    by (simp_all add: ones_24_def ones_8_def)
  note s1 = calcsize_v1 and s2 = calcsize_v2
  have a: "decode_records 1 Little True \<lparr>content = ones_24, pos = 0\<rparr> = Inl StructError"
    by (simp add: decode_records_def f_read_all_def Let_def struct_iter_unpack_def s1 l24)
  have b: "decode_records 2 Little True \<lparr>content = ones_24 @ ones_8, pos = 0\<rparr> = Inl StructError"
    using l32 by (simp add: decode_records_def f_read_all_def Let_def struct_iter_unpack_def s2)
  have u: "unpack_fields Little v1_format (ones_24 @ ones_8)
      = [Num 65535, Num 4294967295, Num 4294967295, Num 4294967295, Num (- 1), Num (- 1),
         Num 4294967295, Num 4294967295]"
    by (simp add: v1_format_def ones_24_def ones_8_def unpack_uint_def unpack_sint_def Let_def)
  have c: "decode_records 1 Little True \<lparr>content = ones_24 @ ones_8, pos = 0\<rparr>
      = Inr [\<lparr>type = 65535, source = 4294967295, sender = 4294967295,
              receiver = 4294967295, seconds = - 1, microseconds = - 1,
              signo = 4294967295, procId = Bytes [], connId = Bytes []\<rparr>]"
    using l32 u by (rule decode_one_v1)
  from a b c show ?thesis by blast
qed

section \<open>Facts about the rounding to double precision\<close>

lemma pow2_pos: "0 < (2::rat) powi e"
  by (simp add: power_int_def)

lemma pow2_mono: "e \<le> f \<Longrightarrow> (2::rat) powi e \<le> 2 powi f"
  by (rule power_int_increasing) simp_all

lemma pow2_add: "(2::rat) powi (e + f) = 2 powi e * 2 powi f"
  by (rule power_int_add) simp

lemma pow2_nat: "0 \<le> e \<Longrightarrow> (2::rat) powi e = 2 ^ nat e"
  by (simp add: power_int_def)

lemma pow2_neg: "(2::rat) powi (- int k) = 1 / 2 ^ k"
  by (simp add: power_int_def field_simps)

lemma ilog2_bounds:
  assumes "0 < x"
  shows "2 powi (ilog2 x) \<le> x \<and> x < 2 powi (ilog2 x + 1)"
proof (cases "1 \<le> x")
  case True
  define n where "n = \<lfloor>x\<rfloor>"
  have n: "0 < n" using True by (simp add: n_def)
  have e: "ilog2 x = bitlen n - 1" using True by (simp add: ilog2_def n_def)
  have b1: "1 \<le> bitlen n" using n by (simp add: bitlen_alt_def)
  from bitlen_bounds [OF n]
  have lo: "2 ^ nat (bitlen n - 1) \<le> n" and hi: "n < 2 ^ nat (bitlen n)" by simp_all
  have "(2::rat) powi (bitlen n - 1) = of_int (2 ^ nat (bitlen n - 1))"
    using b1 by (simp add: pow2_nat)
  also have "\<dots> \<le> of_int n" using lo by (simp only: of_int_le_iff)
  also have "\<dots> \<le> x" by (simp add: n_def)
  finally have l: "2 powi (ilog2 x) \<le> x" by (simp add: e)
  have "n + 1 \<le> 2 ^ nat (bitlen n)" using hi by simp
  then have "(of_int (n + 1) :: rat) \<le> of_int (2 ^ nat (bitlen n))"
    by (simp only: of_int_le_iff)
  moreover have "x < of_int (n + 1)" unfolding n_def by linarith
  ultimately have "x < of_int (2 ^ nat (bitlen n))" by simp
  also have "\<dots> = 2 powi (bitlen n)" using b1 by (simp add: pow2_nat)
  finally have "x < 2 powi (ilog2 x + 1)" by (simp add: e)
  with l show ?thesis by simp
next
  case False
  then have x1: "x < 1" by simp
  define y where "y = 1 / x"
  define m where "m = \<lceil>y\<rceil> - 1"
  have y1: "1 < y" using assms x1 by (simp add: y_def)
  have my: "of_int m < y" unfolding m_def by linarith
  have ym: "y \<le> of_int m + 1" unfolding m_def by linarith
  have m: "0 < m" using y1 by (simp add: m_def)
  have e: "ilog2 x = - bitlen m" using False by (simp add: ilog2_def m_def y_def)
  have b1: "1 \<le> bitlen m" using m by (simp add: bitlen_alt_def)
  define k where "k = nat (bitlen m)"
  have k: "bitlen m = int k" and k1: "1 \<le> k" using b1 by (simp_all add: k_def)
  from bitlen_bounds [OF m]
  have lo: "2 ^ (k - 1) \<le> m" and hi: "m < 2 ^ k"
    using b1 by (simp_all add: k_def nat_diff_distrib)
  have "m + 1 \<le> 2 ^ k" using hi by simp
  then have "(of_int (m + 1) :: rat) \<le> of_int (2 ^ k)" by (simp only: of_int_le_iff)
  moreover have "y \<le> of_int (m + 1)" using ym by simp
  ultimately have "y \<le> of_int (2 ^ k)" by (rule order_trans [rotated])
  then have yk: "y \<le> 2 ^ k" by simp
  have "(2::rat) ^ (k - 1) = of_int (2 ^ (k - 1))" by simp
  also have "\<dots> \<le> of_int m" using lo by (simp only: of_int_le_iff)
  also have "\<dots> < y" by fact
  finally have ky: "2 ^ (k - 1) < y" .
  have xy: "x = 1 / y" using assms by (simp add: y_def)
  have ypos: "0 < y" using y1 by simp
  have "(2::rat) powi (ilog2 x) = 1 / 2 ^ k" by (simp only: e k pow2_neg)
  moreover have "1 / 2 ^ k \<le> 1 / y" using yk ypos by (simp add: field_simps)
  ultimately have l: "2 powi (ilog2 x) \<le> x" by (simp only: xy)
  have "ilog2 x + 1 = - int (k - 1)" using k1 by (simp add: e k of_nat_diff)
  then have "(2::rat) powi (ilog2 x + 1) = 1 / 2 ^ (k - 1)" by (simp only: pow2_neg)
  moreover have "1 / y < 1 / 2 ^ (k - 1)" using ky ypos by (simp add: field_simps)
  ultimately have "x < 2 powi (ilog2 x + 1)" by (simp only: xy)
  with l show ?thesis by simp
qed

lemma pow2_less_imp:
  assumes "(2::rat) powi e < 2 powi f"
  shows "e < f"
  using assms pow2_mono [of f e] by (cases "e < f") simp_all

lemma ilog2_unique:
  assumes "0 < x" "2 powi e \<le> x" "x < 2 powi (e + 1)"
  shows "ilog2 x = e"
proof -
  from ilog2_bounds [OF assms(1)]
  have a: "2 powi (ilog2 x) \<le> x" and b: "x < 2 powi (ilog2 x + 1)" by simp_all
  have "(2::rat) powi e < 2 powi (ilog2 x + 1)" using assms(2) b by simp
  then have "e < ilog2 x + 1" by (rule pow2_less_imp)
  moreover have "(2::rat) powi (ilog2 x) < 2 powi (e + 1)" using a assms(3) by simp
  then have "ilog2 x < e + 1" by (rule pow2_less_imp)
  ultimately show ?thesis by simp
qed

lemma ilog2_mono:
  assumes "0 < x" "x \<le> y"
  shows "ilog2 x \<le> ilog2 y"
proof -
  have y: "0 < y" using assms by simp
  have "2 powi (ilog2 x) \<le> x" using ilog2_bounds [OF assms(1)] by simp
  also have "x \<le> y" by fact
  also have "y < 2 powi (ilog2 y + 1)" using ilog2_bounds [OF y] by simp
  finally have "ilog2 x < ilog2 y + 1" by (rule pow2_less_imp)
  then show ?thesis by simp
qed

lemma round_half_even_bounds: "\<lfloor>x\<rfloor> \<le> round_half_even x \<and> round_half_even x \<le> \<lfloor>x\<rfloor> + 1"
  by (simp add: round_half_even_def Let_def)

lemma round_half_even_of_int: "round_half_even (of_int n) = n"
  by (simp add: round_half_even_def Let_def)

lemma round_half_even_mono:
  assumes "x \<le> y"
  shows "round_half_even x \<le> round_half_even y"
proof (cases "\<lfloor>x\<rfloor> = \<lfloor>y\<rfloor>")
  case True
  then have "x - of_int \<lfloor>x\<rfloor> \<le> y - of_int \<lfloor>y\<rfloor>" using assms by simp
  then show ?thesis using True by (auto simp: round_half_even_def Let_def)
next
  case False
  then have "\<lfloor>x\<rfloor> < \<lfloor>y\<rfloor>" using floor_mono [OF assms] by simp
  then show ?thesis
    using round_half_even_bounds [of x] round_half_even_bounds [of y] by linarith
qed

text \<open>The rounding of a positive number, once its exponent is known.\<close>

lemma round_pos_eq:
  assumes "0 < x" "2 powi e \<le> x" "x < 2 powi (e + 1)" "- 1022 \<le> e"
  shows "round_pos x = of_int (round_half_even (x / 2 powi (e - 52))) * 2 powi (e - 52)"
  using ilog2_unique [OF assms(1-3)] assms(4) by (simp add: round_pos_def Let_def max_def)

lemma round_pos_nonneg:
  assumes "0 < x"
  shows "0 \<le> round_pos x"
proof -
  define u where "u = (2::rat) powi (max (ilog2 x) (- 1022) - 52)"
  have u: "0 < u" by (simp add: u_def pow2_pos)
  have "0 \<le> \<lfloor>x / u\<rfloor>" using assms u by simp
  then have "0 \<le> round_half_even (x / u)" using round_half_even_bounds [of "x / u"] by linarith
  then show ?thesis using u by (simp add: round_pos_def Let_def u_def [symmetric])
qed

lemma round_pos_upper:
  assumes "0 < x"
  shows "round_pos x \<le> 2 powi (max (ilog2 x) (- 1022) + 1)"
proof -
  define e where "e = max (ilog2 x) (- 1022)"
  define u where "u = (2::rat) powi (e - 52)"
  have u: "0 < u" by (simp add: u_def pow2_pos)
  have "x < 2 powi (ilog2 x + 1)" using ilog2_bounds [OF assms] by simp
  also have "\<dots> \<le> 2 powi (e + 1)" by (rule pow2_mono) (simp add: e_def)
  also have "\<dots> = 2 powi (53 + (e - 52))"
    by (rule arg_cong [where f = "power_int 2"]) simp
  also have "\<dots> = 2 powi 53 * u" by (simp only: pow2_add u_def)
  finally have "x / u \<le> 2 powi 53" using u by (simp add: field_simps)
  then have "x / u \<le> of_int (2 ^ 53)" by (simp add: pow2_nat)
  from round_half_even_mono [OF this]
  have "round_half_even (x / u) \<le> 2 ^ 53" by (simp only: round_half_even_of_int)
  then have "(of_int (round_half_even (x / u)) :: rat) \<le> of_int (2 ^ 53)"
    by (simp only: of_int_le_iff)
  then have "of_int (round_half_even (x / u)) * u \<le> of_int (2 ^ 53) * u"
    using u by (simp only: mult_le_cancel_right_pos)
  also have "of_int (2 ^ 53) * u = 2 powi 53 * u" by (simp add: pow2_nat)
  also have "\<dots> = 2 powi (53 + (e - 52))" by (simp only: pow2_add u_def)
  also have "\<dots> = 2 powi (e + 1)"
    by (rule arg_cong [where f = "power_int 2"]) simp
  finally show ?thesis by (simp add: round_pos_def Let_def e_def [symmetric] u_def [symmetric])
qed

lemma round_pos_lower:
  assumes "0 < x" "- 1022 \<le> ilog2 x"
  shows "2 powi (ilog2 x) \<le> round_pos x"
proof -
  define e where "e = ilog2 x"
  define u where "u = (2::rat) powi (e - 52)"
  have u: "0 < u" by (simp add: u_def pow2_pos)
  have m: "max (ilog2 x) (- 1022) = e" using assms(2) by (simp add: e_def)
  have p: "2 powi 52 * u = 2 powi e"
  proof -
    have "2 powi 52 * u = 2 powi (52 + (e - 52))" by (simp only: pow2_add u_def)
    then show ?thesis by simp
  qed
  note p
  also have "2 powi e \<le> x" using ilog2_bounds [OF assms(1)] by (simp add: e_def)
  finally have "2 powi 52 \<le> x / u" using u by (simp add: field_simps)
  then have "of_int (2 ^ 52) \<le> x / u" by (simp add: pow2_nat)
  from round_half_even_mono [OF this]
  have "2 ^ 52 \<le> round_half_even (x / u)" by (simp only: round_half_even_of_int)
  then have "(of_int (2 ^ 52) :: rat) \<le> of_int (round_half_even (x / u))"
    by (simp only: of_int_le_iff)
  then have "of_int (2 ^ 52) * u \<le> of_int (round_half_even (x / u)) * u"
    using u by (simp only: mult_le_cancel_right_pos)
  moreover have "of_int (2 ^ 52) * u = 2 powi e"
    using p by (simp add: pow2_nat)
  moreover have "round_pos x = of_int (round_half_even (x / u)) * u"
    by (simp add: round_pos_def Let_def m u_def)
  ultimately show ?thesis by (simp add: e_def)
qed

lemma round_pos_mono:
  assumes "0 < x" "x \<le> y"
  shows "round_pos x \<le> round_pos y"
proof -
  have y: "0 < y" using assms by simp
  define e where "e = max (ilog2 x) (- 1022)"
  define f where "f = max (ilog2 y) (- 1022)"
  have ef: "e \<le> f" using ilog2_mono [OF assms] by (simp add: e_def f_def)
  show ?thesis
  proof (cases "e = f")
    case True
    define u where "u = (2::rat) powi (e - 52)"
    have u: "0 < u" by (simp add: u_def pow2_pos)
    have "x / u \<le> y / u" using assms(2) u by (simp add: divide_right_mono)
    from round_half_even_mono [OF this]
    have "(of_int (round_half_even (x / u)) :: rat) \<le> of_int (round_half_even (y / u))"
      by (simp only: of_int_le_iff)
    then have "of_int (round_half_even (x / u)) * u \<le> of_int (round_half_even (y / u)) * u"
      using u by (simp only: mult_le_cancel_right_pos)
    then show ?thesis
      using True by (simp add: round_pos_def Let_def e_def [symmetric] f_def [symmetric] u_def)
  next
    case False
    then have lt: "e < f" using ef by simp
    then have fy: "f = ilog2 y" and ny: "- 1022 \<le> ilog2 y"
      by (auto simp: e_def f_def max_def split: if_splits)
    have "round_pos x \<le> 2 powi (e + 1)" using round_pos_upper [OF assms(1)] by (simp add: e_def)
    also have "\<dots> \<le> 2 powi f" using lt by (intro pow2_mono) simp
    also have "\<dots> \<le> round_pos y" using round_pos_lower [OF y ny] by (simp add: fy)
    finally show ?thesis .
  qed
qed

text \<open>An integer of fewer than 54 bits is a float.\<close>

lemma round_pos_of_int:
  assumes "0 < n" "n < 2 ^ 53"
  shows "round_pos (of_int n) = of_int n"
proof -
  define x :: rat where "x = of_int n"
  have x: "0 < x" using assms(1) by (simp add: x_def)
  define e where "e = ilog2 x"
  have "1 \<le> x" using assms(1) by (simp add: x_def)
  then have "2 powi 0 \<le> x" by simp
  also have "x < 2 powi (e + 1)" using ilog2_bounds [OF x] by (simp add: e_def)
  finally have e0: "0 \<le> e" using pow2_less_imp [of 0 "e + 1"] by simp
  have "2 powi e \<le> x" using ilog2_bounds [OF x] by (simp add: e_def)
  also have "x < of_int (2 ^ 53)" unfolding x_def using assms(2) by (simp only: of_int_less_iff)
  also have "of_int (2 ^ 53) = (2::rat) powi 53" by (simp add: pow2_nat)
  finally have e52: "e \<le> 52" using pow2_less_imp [of e 53] by simp
  define k where "k = nat (52 - e)"
  have k: "e - 52 = - int k" using e52 by (simp add: k_def)
  have u: "(2::rat) powi (e - 52) = 1 / 2 ^ k" by (simp only: k pow2_neg)
  have "x / (1 / 2 ^ k) = of_int (n * 2 ^ k)" by (simp add: x_def)
  then have "round_half_even (x / (1 / 2 ^ k)) = n * 2 ^ k"
    by (simp only: round_half_even_of_int)
  then have "of_int (round_half_even (x / (1 / 2 ^ k))) * (1 / 2 ^ k) = x"
    by (simp add: x_def)
  moreover have "max (ilog2 x) (- 1022) = e" using e0 by (simp add: e_def)
  ultimately show ?thesis
    by (simp add: round_pos_def Let_def u x_def [symmetric])
qed

lemma round_double_of_int:
  assumes "\<bar>n\<bar> < 2 ^ 53"
  shows "round_double (of_int n) = Finite (of_int n)"
proof -
  have small: "(of_int m :: rat) < 2 ^ 1024" if "m < 2 ^ 53" for m :: int
  proof -
    have "(of_int m :: rat) < of_int (2 ^ 53)" using that by (simp only: of_int_less_iff)
    also have "\<dots> \<le> 2 ^ 1024" by simp
    finally show ?thesis .
  qed
  consider "n = 0" | "0 < n" | "n < 0" by linarith
  then show ?thesis
  proof cases
    case 1
    then show ?thesis by (simp add: round_double_def)
  next
    case 2
    then have "n < 2 ^ 53" using assms by simp
    then show ?thesis
      using 2 round_pos_of_int [of n] small [of n] by (simp add: round_double_def)
  next
    case 3
    then have "0 < - n" and "- n < 2 ^ 53" using assms by simp_all
    then show ?thesis
      using 3 round_pos_of_int [of "- n"] small [of "- n"] by (simp add: round_double_def)
  qed
qed

lemma float_of_int_exact: "\<bar>n\<bar> < 2 ^ 53 \<Longrightarrow> float_of_int n = Inr (of_int n)"
  by (simp add: float_of_int_def round_double_of_int)

text \<open>Rounding respects the order.\<close>

lemma round_double_mono:
  assumes "x \<le> y"
  shows "\<not> float_less (round_double y) (round_double x)"
proof -
  consider "0 < x" | "x \<le> 0" "0 < y" | "x < 0" "y = 0" | "x = 0" "y = 0" | "y < 0"
    using assms by linarith
  then show ?thesis
  proof cases
    case 1
    then have y: "0 < y" using assms by simp
    from round_pos_mono [OF 1 assms] show ?thesis
      using 1 y by (auto simp: round_double_def)
  next
    case 2
    have "0 \<le> round_pos y" using 2 by (intro round_pos_nonneg)
    moreover have "0 \<le> round_pos (- x)" if "x < 0" using that by (intro round_pos_nonneg) simp
    ultimately show ?thesis using 2 by (auto simp: round_double_def)
  next
    case 3
    have "0 \<le> round_pos (- x)" using 3 by (intro round_pos_nonneg) simp
    then show ?thesis using 3 by (auto simp: round_double_def)
  next
    case 4
    then show ?thesis by (simp add: round_double_def)
  next
    case 5
    then have x: "x < 0" using assms by simp
    have "round_pos (- y) \<le> round_pos (- x)"
      using 5 assms by (intro round_pos_mono) simp_all
    then show ?thesis using 5 x by (auto simp: round_double_def)
  qed
qed

section \<open>Facts about timestamps\<close>

lemma float_of_int_error: "float_of_int n = Inl e \<Longrightarrow> e = OverflowError"
  by (auto simp: float_of_int_def split: pyfloat.splits)

lemma timestamp_error: "timestamp e = Inl err \<Longrightarrow> err = OverflowError"
  by (auto simp: timestamp_def int_truediv_float_def int_add_float_def
      split: sum.splits dest: float_of_int_error)

lemma round_double_unit:
  assumes "0 \<le> x" "x \<le> 1"
  shows "\<exists>q. round_double x = Finite q \<and> 0 \<le> q \<and> q \<le> 1"
proof (cases "x = 0")
  case True
  then show ?thesis by (simp add: round_double_def)
next
  case False
  then have x: "0 < x" using assms(1) by simp
  have "round_pos x \<le> round_pos (of_int 1)" using x assms(2) by (intro round_pos_mono) simp_all
  also have "\<dots> = 1" using round_pos_of_int [of 1] by simp
  finally have le: "round_pos x \<le> 1" .
  then have "round_pos x < 2 ^ 1024"
    by (rule order_le_less_trans) simp
  then show ?thesis using x le round_pos_nonneg [OF x] by (simp add: round_double_def)
qed

text \<open>The timestamp of an entry in the usual range: the seconds plus a fraction.\<close>

lemma timestamp_normal:
  assumes "normal_time e"
  shows "\<exists>q. round_double (of_int (microseconds e) / 1000000) = Finite q \<and> 0 \<le> q \<and> q \<le> 1
     \<and> timestamp e = Inr (round_double (of_int (seconds e) + q))"
proof -
  have u: "\<bar>microseconds e\<bar> < 2 ^ 53" and s: "\<bar>seconds e\<bar> < 2 ^ 53"
    using assms by (simp_all add: normal_time_def)
  have "0 \<le> (of_int (microseconds e) :: rat) / 1000000"
    and "(of_int (microseconds e) :: rat) / 1000000 \<le> 1"
    using assms by (simp_all add: normal_time_def)
  from round_double_unit [OF this]
  obtain q where q: "round_double (of_int (microseconds e) / 1000000) = Finite q"
    "0 \<le> q" "q \<le> 1" by blast
  then have "timestamp e = Inr (round_double (of_int (seconds e) + q))"
    by (simp add: timestamp_def int_truediv_float_def int_add_float_def
        float_of_int_exact [OF u] float_of_int_exact [OF s])
  with q show ?thesis by blast
qed

lemma timestamp_whole_second:
  assumes "microseconds e = 0" "\<bar>seconds e\<bar> < 2 ^ 53"
  shows "timestamp e = Inr (Finite (of_int (seconds e)))"
proof -
  have "float_of_int 0 = Inr 0" using float_of_int_exact [of 0] by simp
  moreover have "round_double 0 = Finite 0" by (simp add: round_double_def)
  ultimately show ?thesis
    using assms(1) round_double_of_int [OF assms(2)]
    by (simp add: timestamp_def int_truediv_float_def int_add_float_def
        float_of_int_exact [OF assms(2)])
qed

text \<open>
  For entries in the usual range the comparison of the double precision timestamps
  implies the order of the exact instants.
\<close>

lemma earlier_normal:
  assumes "normal_time a" "normal_time b" "earlier a b"
  shows "instant a < instant b"
proof (rule ccontr)
  assume "\<not> instant a < instant b"
  then have le: "instant b \<le> instant a" by simp
  from timestamp_normal [OF assms(1)]
  obtain qa where qa: "round_double (of_int (microseconds a) / 1000000) = Finite qa"
    "0 \<le> qa" "qa \<le> 1" "timestamp a = Inr (round_double (of_int (seconds a) + qa))" by blast
  from timestamp_normal [OF assms(2)]
  obtain qb where qb: "round_double (of_int (microseconds b) / 1000000) = Finite qb"
    "0 \<le> qb" "qb \<le> 1" "timestamp b = Inr (round_double (of_int (seconds b) + qb))" by blast
  have ua: "0 \<le> microseconds a" "microseconds a < 1000000"
    and ub: "0 \<le> microseconds b" "microseconds b < 1000000"
    using assms(1,2) by (simp_all add: normal_time_def)
  have "of_int (seconds b) + qb \<le> of_int (seconds a) + qa"
  proof -
    consider "seconds a = seconds b" | "seconds b < seconds a" | "seconds a < seconds b"
      by linarith
    then show ?thesis
    proof cases
      case 1
      then have "microseconds b \<le> microseconds a" using le by (simp add: instant_def)
      then have "(of_int (microseconds b) :: rat) / 1000000 \<le> of_int (microseconds a) / 1000000"
        by simp
      from round_double_mono [OF this] have "qb \<le> qa" by (simp add: qa(1) qb(1))
      then show ?thesis using 1 by simp
    next
      case 2
      then have "seconds b + 1 \<le> seconds a" by simp
      then have "(of_int (seconds b + 1) :: rat) \<le> of_int (seconds a)"
        by (simp only: of_int_le_iff)
      then show ?thesis using qa(2) qb(3) by simp
    next
      case 3
      then have "seconds a + 1 \<le> seconds b" by simp
      then have "(seconds a + 1) * 1000000 \<le> seconds b * 1000000" by simp
      then have "instant a < instant b" using ua ub by (simp add: instant_def algebra_simps)
      then show ?thesis using le by simp
    qed
  qed
  from round_double_mono [OF this] show False
    using assms(3) by (simp add: earlier_def qa(4) qb(4))
qed

text \<open>A number from \<open>2 ^ 1024\<close> on is rounded to infinity.\<close>

lemma round_double_huge:
  assumes "2 ^ 1024 \<le> x"
  shows "round_double x = PosInf"
proof -
  have x: "0 < x" using assms by (rule less_le_trans [rotated]) simp
  have "(2::rat) powi 1024 \<le> x" using assms by (simp add: pow2_nat)
  also have "x < 2 powi (ilog2 x + 1)" using ilog2_bounds [OF x] by simp
  finally have e: "1024 \<le> ilog2 x" using pow2_less_imp [of 1024 "ilog2 x + 1"] by simp
  have "(2::rat) ^ 1024 = 2 powi 1024" by (simp add: pow2_nat)
  also have "\<dots> \<le> 2 powi (ilog2 x)" using e by (rule pow2_mono)
  also have "\<dots> \<le> round_pos x" using x e by (intro round_pos_lower) simp_all
  finally show ?thesis using x by (simp add: round_double_def)
qed

lemma float_of_int_huge: "2 ^ 1024 \<le> n \<Longrightarrow> float_of_int n = Inl OverflowError"
proof -
  assume "2 ^ 1024 \<le> n"
  then have "(of_int (2 ^ 1024) :: rat) \<le> of_int n" by (simp only: of_int_le_iff)
  then have "round_double (of_int n) = PosInf" by (intro round_double_huge) simp
  then show ?thesis by (simp add: float_of_int_def)
qed

text \<open>An integer below \<open>2 ^ 1023\<close> in magnitude is converted without an error.\<close>

lemma round_pos_in_range:
  assumes "1 \<le> x" "x < 2 ^ 1023"
  shows "round_pos x < 2 ^ 1024"
proof -
  have x: "0 < x" using assms(1) by simp
  have "(2::rat) powi 0 \<le> x" using assms(1) by simp
  also have "x < 2 powi (ilog2 x + 1)" using ilog2_bounds [OF x] by simp
  finally have lo: "0 \<le> ilog2 x" using pow2_less_imp [of 0 "ilog2 x + 1"] by simp
  have "2 powi (ilog2 x) \<le> x" using ilog2_bounds [OF x] by simp
  also have "x < 2 powi 1023" using assms(2) by (simp add: pow2_nat)
  finally have hi: "ilog2 x + 1 \<le> 1023" using pow2_less_imp [of "ilog2 x" 1023] by simp
  have "round_pos x \<le> 2 powi (max (ilog2 x) (- 1022) + 1)" using x by (rule round_pos_upper)
  also have "max (ilog2 x) (- 1022) + 1 = ilog2 x + 1" using lo by simp
  also have "(2::rat) powi (ilog2 x + 1) \<le> 2 powi 1023" using hi by (rule pow2_mono)
  also have "(2::rat) powi 1023 < 2 ^ 1024" by (simp add: pow2_nat)
  finally show ?thesis .
qed

lemma float_of_int_total:
  assumes "\<bar>n\<bar> < 2 ^ 1023"
  shows "\<exists>r. float_of_int n = Inr r"
proof -
  have r: "round_pos (of_int m) < 2 ^ 1024" if "0 < m" "m < 2 ^ 1023" for m :: int
  proof -
    have "(of_int m :: rat) < of_int (2 ^ 1023)" using that(2) by (simp only: of_int_less_iff)
    then have "(of_int m :: rat) < 2 ^ 1023" by simp
    moreover have "(1::rat) \<le> of_int m" using that(1) by simp
    ultimately show ?thesis by (intro round_pos_in_range)
  qed
  consider "n = 0" | "0 < n" | "n < 0" by linarith
  then show ?thesis
  proof cases
    case 1
    then show ?thesis by (simp add: float_of_int_def round_double_def)
  next
    case 2
    then show ?thesis using r [of n] assms by (simp add: float_of_int_def round_double_def)
  next
    case 3
    then show ?thesis using r [of "- n"] assms by (simp add: float_of_int_def round_double_def)
  qed
qed

lemma timestamp_total:
  assumes "\<bar>seconds e\<bar> < 2 ^ 1023" "\<bar>microseconds e\<bar> < 2 ^ 1023"
  shows "\<exists>t. timestamp e = Inr t"
  using float_of_int_total [OF assms(1)] float_of_int_total [OF assms(2)]
  by (auto simp: timestamp_def int_truediv_float_def int_add_float_def)

text \<open>Rounding a number whose binary exponent and nearest multiple of the unit are known.\<close>

lemma round_half_even_nearest:
  assumes "\<bar>x - of_int n\<bar> < 1 / 2 \<or> \<bar>x - of_int n\<bar> = 1 / 2 \<and> even n"
  shows "round_half_even x = n"
proof -
  have "\<lfloor>x\<rfloor> = n \<or> \<lfloor>x\<rfloor> = n - 1" using assms by (auto simp: floor_eq_iff)
  then show ?thesis
  proof
    assume f: "\<lfloor>x\<rfloor> = n"
    then have "of_int n \<le> x" by (simp add: floor_eq_iff)
    then show ?thesis using assms f by (auto simp: round_half_even_def Let_def)
  next
    assume f: "\<lfloor>x\<rfloor> = n - 1"
    then have "x < of_int n" by (simp add: floor_eq_iff)
    then show ?thesis using assms f by (auto simp: round_half_even_def Let_def)
  qed
qed

lemma round_double_eval:
  assumes "2 powi e \<le> x" "x < 2 powi (e + 1)" "- 1022 \<le> e" "e < 1023"
    and "\<bar>x / 2 powi (e - 52) - of_int n\<bar> < 1 / 2
      \<or> \<bar>x / 2 powi (e - 52) - of_int n\<bar> = 1 / 2 \<and> even n"
  shows "round_double x = Finite (of_int n * 2 powi (e - 52))"
proof -
  have x: "0 < x" using pow2_pos [of e] assms(1) by (rule less_le_trans)
  have i: "ilog2 x = e" using x assms(1,2) by (rule ilog2_unique)
  have "round_pos x \<le> 2 powi (max (ilog2 x) (- 1022) + 1)" using x by (rule round_pos_upper)
  also have "max (ilog2 x) (- 1022) + 1 = e + 1" using i assms(3) by simp
  also have "(2::rat) powi (e + 1) \<le> 2 powi 1023" using assms(4) by (intro pow2_mono) simp
  also have "(2::rat) powi 1023 < 2 ^ 1024" by (simp add: pow2_nat)
  finally have "round_pos x < 2 ^ 1024" .
  then show ?thesis
    using x round_pos_eq [OF x assms(1,2,3)] round_half_even_nearest [OF assms(5)]
    by (simp add: round_double_def)
qed

lemma fraction_16: "round_double (16 / 1000000) = Finite (4722366482869645 / 2 ^ 68)"
  using round_double_eval [of "- 16" "16 / 1000000" 4722366482869645]
  by simp

lemma fraction_1000016: "round_double (1000016 / 1000000) = Finite (2251835842482267 / 2 ^ 51)"
  using round_double_eval [of 0 "1000016 / 1000000" 4503671684964534]
  by simp

lemma sum_5_16: "round_double (5 + 4722366482869645 / 2 ^ 68) = Finite (5629517548611629 / 2 ^ 50)"
  using round_double_eval [of 2 "5 + 4722366482869645 / 2 ^ 68" 5629517548611629]
  by simp

lemma sum_4_1000016:
  "round_double (4 + 2251835842482267 / 2 ^ 51) = Finite (5629517548611630 / 2 ^ 50)"
  using round_double_eval [of 2 "4 + 2251835842482267 / 2 ^ 51" 5629517548611630]
  by simp

lemma fraction_2000017: "round_double (2000017 / 1000000) = Finite (4503637907967329 / 2 ^ 51)"
  using round_double_eval [of 1 "2000017 / 1000000" 4503637907967329]
  by simp

lemma sum_3_2000017:
  "round_double (3 + 4503637907967329 / 2 ^ 51) = Finite (5629518674511536 / 2 ^ 50)"
  using round_double_eval [of 2 "3 + 4503637907967329 / 2 ^ 51" 5629518674511536]
  by simp

section \<open>Pairing: the table of Receives and the invariant of the links\<close>

lemma fill_rx_map_eq:
  assumes "\<forall>j \<in> set js. m (pair_key (entries ! j)) \<noteq> None"
  shows "fill_rx_map entries js m =
     Inr (\<lambda>k. case m k of
                 None \<Rightarrow> None
               | Some l \<Rightarrow> Some (l @ filter (\<lambda>j. pair_key (entries ! j) = k) js))"
  using assms
proof (induction js arbitrary: m)
  case Nil
  have "(\<lambda>k. case m k of None \<Rightarrow> None
             | Some l \<Rightarrow> Some (l @ filter (\<lambda>j. pair_key (entries ! j) = k) [])) = m"
    by (rule ext) (simp split: option.splits)
  then show ?case by (simp del: filter.simps)
next
  case (Cons j js)
  obtain l where l: "m (pair_key (entries ! j)) = Some l"
    using Cons.prems by auto
  let ?m = "m(pair_key (entries ! j) \<mapsto> l @ [j])"
  have "\<forall>j' \<in> set js. ?m (pair_key (entries ! j')) \<noteq> None"
    using Cons.prems by simp
  from Cons.IH [OF this]
  have "fill_rx_map entries js ?m =
     Inr (\<lambda>k. case ?m k of
                 None \<Rightarrow> None
               | Some l \<Rightarrow> Some (l @ filter (\<lambda>j. pair_key (entries ! j) = k) js))" .
  moreover have "(\<lambda>k. case ?m k of
                 None \<Rightarrow> None
               | Some l \<Rightarrow> Some (l @ filter (\<lambda>j. pair_key (entries ! j) = k) js))
      = (\<lambda>k. case m k of
                 None \<Rightarrow> None
               | Some l \<Rightarrow> Some (l @ filter (\<lambda>j'. pair_key (entries ! j') = k) (j # js)))"
    by (rule ext) (simp add: l split: option.splits)
  ultimately show ?case by (simp add: l)
qed

lemma find_pairs_eq:
  "find_pairs entries links = pair_loop entries (receive_table entries) (sends entries) links"
proof -
  let ?m = "\<lambda>k. if k \<in> set (map pair_key entries) then Some [] else None"
  have "\<forall>j \<in> set (receives entries). ?m (pair_key (entries ! j)) \<noteq> None"
    by (auto simp: receives_def)
  from fill_rx_map_eq [OF this]
  have "fill_rx_map entries (receives entries) ?m = Inr (receive_table entries)"
    by (simp add: receive_table_def if_distrib cong: if_cong)
  then show ?thesis
    by (simp add: find_pairs_def Let_def sends_def receives_def)
qed

lemma receive_table_sends:
  assumes "i \<in> set (sends entries)"
  shows "receive_table entries (pair_key (entries ! i))
     = Some (filter (\<lambda>j. pair_key (entries ! j) = pair_key (entries ! i)) (receives entries))"
  using assms by (auto simp: receive_table_def sends_def)

text \<open>What \<^verbatim>\<open>is_pair\<close> and the list of the possible pairs return.\<close>

lemma is_pair_True:
  "is_pair entries links j i = Inr True
     \<longleftrightarrow> links ! j = None \<and> earlier (entries ! i) (entries ! j)"
  by (auto simp: is_pair_def earlier_def split: sum.splits)

lemma is_pair_error: "is_pair entries links j i = Inl e \<Longrightarrow> e = OverflowError"
  by (auto simp: is_pair_def split: if_splits sum.splits dest: timestamp_error)

lemma is_pair_defined:
  assumes "timestamp (entries ! i) = Inr a" "timestamp (entries ! j) = Inr b"
  shows "is_pair entries links j i = Inr (links ! j = None \<and> float_less a b)"
  using assms by (simp add: is_pair_def)


lemma possible_pairs_Inr:
  "possible_pairs entries links i cs = Inr r \<Longrightarrow>
   r = filter (\<lambda>j. is_pair entries links j i = Inr True) cs
   \<and> (\<forall>j \<in> set cs. \<exists>b. is_pair entries links j i = Inr b)"
proof (induction cs arbitrary: r)
  case Nil
  then show ?case by simp
next
  case (Cons c cs)
  from Cons.prems obtain b rest where b: "is_pair entries links c i = Inr b"
    and rest: "possible_pairs entries links i cs = Inr rest"
    and r: "r = (if b then c # rest else rest)"
    by (auto split: sum.splits)
  from Cons.IH [OF rest] b r show ?case by auto
qed

lemma possible_pairs_error:
  "possible_pairs entries links i cs = Inl e \<Longrightarrow> \<exists>j \<in> set cs. is_pair entries links j i = Inl e"
proof (induction cs)
  case Nil
  then show ?case by simp
next
  case (Cons c cs)
  then show ?case by (auto split: sum.splits)
qed

lemma possible_pairs_defined:
  "\<forall>j \<in> set cs. \<exists>b. is_pair entries links j i = Inr b \<Longrightarrow>
   possible_pairs entries links i cs = Inr (filter (\<lambda>j. is_pair entries links j i = Inr True) cs)"
proof (induction cs)
  case Nil
  show ?case by simp
next
  case (Cons c cs)
  then obtain b where b: "is_pair entries links c i = Inr b" by auto
  have "possible_pairs entries links i cs
      = Inr (filter (\<lambda>j. is_pair entries links j i = Inr True) cs)"
    using Cons by simp
  then show ?case using b by simp
qed

text \<open>The loop over the Sends raises nothing but the \<^verbatim>\<open>OverflowError\<close> of a timestamp.\<close>

lemma pair_loop_result:
  "set is \<subseteq> set (sends entries) \<Longrightarrow>
   (\<exists>links'. pair_loop entries (receive_table entries) is links = Inr links')
   \<or> pair_loop entries (receive_table entries) is links = Inl OverflowError"
proof (induction "is" arbitrary: links)
  case Nil
  show ?case by simp
next
  case (Cons i "is")
  then have i: "i \<in> set (sends entries)" and rest: "set is \<subseteq> set (sends entries)"
    by simp_all
  let ?cands = "filter (\<lambda>j. pair_key (entries ! j) = pair_key (entries ! i)) (receives entries)"
  show ?case
  proof (cases "possible_pairs entries links i ?cands")
    case (Inl e)
    then have "e = OverflowError"
      using possible_pairs_error [OF Inl] is_pair_error by blast
    then show ?thesis using Inl by (simp add: receive_table_sends [OF i])
  next
    case (Inr r)
    show ?thesis
    proof (cases r)
      case Nil
      then show ?thesis
        using Inr Cons.IH [OF rest, of links] by (simp add: receive_table_sends [OF i])
    next
      case (Cons j js)
      then show ?thesis
        using Inr Cons.IH [OF rest, of "links[i := Some j, j := Some i]"]
        by (simp add: receive_table_sends [OF i])
    qed
  qed
qed

text \<open>It returns when the timestamp of every entry can be computed.\<close>

lemma pair_loop_total:
  assumes "\<forall>k < length entries. \<exists>a. timestamp (entries ! k) = Inr a"
  shows "set is \<subseteq> set (sends entries) \<Longrightarrow>
   \<exists>links'. pair_loop entries (receive_table entries) is links = Inr links'"
proof (induction "is" arbitrary: links)
  case Nil
  show ?case by simp
next
  case (Cons i "is")
  then have i: "i \<in> set (sends entries)" and rest: "set is \<subseteq> set (sends entries)"
    by simp_all
  let ?cands = "filter (\<lambda>j. pair_key (entries ! j) = pair_key (entries ! i)) (receives entries)"
  have i_n: "i < length entries" using i by (simp add: sends_def)
  have "\<forall>j \<in> set ?cands. \<exists>b. is_pair entries links j i = Inr b"
  proof
    fix j assume "j \<in> set ?cands"
    then have "j < length entries" by (simp add: receives_def)
    then obtain a b where "timestamp (entries ! i) = Inr a" "timestamp (entries ! j) = Inr b"
      using assms i_n by blast
    then show "\<exists>b. is_pair entries links j i = Inr b" by (simp add: is_pair_defined)
  qed
  from possible_pairs_defined [OF this]
  obtain r where r: "possible_pairs entries links i ?cands = Inr r" by blast
  show ?case
  proof (cases r)
    case Nil
    then show ?thesis
      using r Cons.IH [OF rest, of links] by (simp add: receive_table_sends [OF i])
  next
    case (Cons j js)
    then show ?thesis
      using r Cons.IH [OF rest, of "links[i := Some j, j := Some i]"]
      by (simp add: receive_table_sends [OF i])
  qed
qed

text \<open>Every link that the loop sets is sound.\<close>

lemma pair_loop_links_ok:
  "set is \<subseteq> set (sends entries) \<Longrightarrow> links_ok entries links \<Longrightarrow>
   pair_loop entries (receive_table entries) is links = Inr links' \<Longrightarrow> links_ok entries links'"
proof (induction "is" arbitrary: links)
  case Nil
  then show ?case by simp
next
  case (Cons i "is")
  let ?n = "length entries"
  let ?cands = "filter (\<lambda>j. pair_key (entries ! j) = pair_key (entries ! i)) (receives entries)"
  have i: "i \<in> set (sends entries)" and rest: "set is \<subseteq> set (sends entries)"
    using Cons.prems(1) by simp_all
  have i_n: "i < ?n" and i_send: "type (entries ! i) = ITC_SEND"
    using i by (simp_all add: sends_def)
  obtain r where r: "possible_pairs entries links i ?cands = Inr r"
    using Cons.prems(3) by (auto simp: receive_table_sends [OF i] split: sum.splits)
  have r_eq: "r = filter (\<lambda>j. is_pair entries links j i = Inr True) ?cands"
    using possible_pairs_Inr [OF r] by simp
  show ?case
  proof (cases r)
    case Nil
    then have "pair_loop entries (receive_table entries) is links = Inr links'"
      using Cons.prems(3) r by (simp add: receive_table_sends [OF i])
    from Cons.IH [OF rest Cons.prems(2) this] show ?thesis .
  next
    case (Cons j js)
    then have "j \<in> set (filter (\<lambda>j. is_pair entries links j i = Inr True) ?cands)"
      using r_eq by simp
    then have j_n: "j < ?n" and j_recv: "type (entries ! j) = ITC_RECV"
      and key: "pair_key (entries ! j) = pair_key (entries ! i)"
      and time: "earlier (entries ! i) (entries ! j)"
      by (auto simp: receives_def is_pair_True)
    have ij: "i \<noteq> j" using i_send j_recv by (auto simp: ITC_SEND_def ITC_RECV_def)
    let ?links = "links[i := Some j, j := Some i]"
    have len: "length links = ?n" using Cons.prems(2) by (simp add: links_ok_def)
    have "links_ok entries ?links"
      unfolding links_ok_def
    proof (intro conjI allI impI)
      show "length ?links = ?n" using len by simp
    next
      fix a b
      assume a: "a < ?n" and ab: "?links ! a = Some b"
      show "link_ok entries a b"
      proof (cases "a = j")
        case True
        then have "b = i" using ab j_n len by simp
        then show ?thesis
          using True i_n i_send j_recv key time by (simp add: link_ok_def)
      next
        case False
        show ?thesis
        proof (cases "a = i")
          case True
          then have "b = j" using ab i_n len ij by simp
          then show ?thesis
            using True j_n i_send j_recv key time by (simp add: link_ok_def)
        next
          case False
          then have "links ! a = Some b" using ab \<open>a \<noteq> j\<close> by simp
          then show ?thesis using Cons.prems(2) a by (simp add: links_ok_def)
        qed
      qed
    qed
    moreover have "pair_loop entries (receive_table entries) is ?links = Inr links'"
      using Cons.prems(3) r Cons by (simp add: receive_table_sends [OF i])
    ultimately show ?thesis using Cons.IH [OF rest] by blast
  qed
qed

lemma links_ok_unpaired: "links_ok entries (unpaired entries)"
  by (simp add: links_ok_def unpaired_def)

lemma find_pairs_links_ok:
  "find_pairs entries (unpaired entries) = Inr links \<Longrightarrow> links_ok entries links"
  using pair_loop_links_ok [of "sends entries" entries "unpaired entries" links]
  by (simp add: find_pairs_eq links_ok_unpaired)

text \<open>A Send followed by one Receive with its key, and a Receive followed by one Send.\<close>

lemma find_pairs_two:
  assumes "timestamp (send_at s u) = Inr a" "timestamp (receive_at r v) = Inr b"
  shows "find_pairs [send_at s u, receive_at r v] (unpaired [send_at s u, receive_at r v])
     = Inr (if float_less a b then [Some 1, Some 0] else [None, None])"
proof -
  have "sends [send_at s u, receive_at r v] = [0]"
    by (simp add: sends_def send_at_def receive_at_def ITC_SEND_def ITC_RECV_def upt_rec)
  moreover have "receive_table [send_at s u, receive_at r v] (pair_key (send_at s u)) = Some [1]"
    by (simp add: receive_table_def receives_def send_at_def receive_at_def ITC_SEND_def
        ITC_RECV_def pair_key_def upt_rec)
  ultimately show ?thesis
    using assms by (simp add: find_pairs_eq unpaired_def is_pair_def)
qed

lemma find_pairs_two_rev:
  assumes "timestamp (send_at s u) = Inr a" "timestamp (receive_at r v) = Inr b"
  shows "find_pairs [receive_at r v, send_at s u] (unpaired [receive_at r v, send_at s u])
     = Inr (if float_less a b then [Some 1, Some 0] else [None, None])"
proof -
  have "sends [receive_at r v, send_at s u] = [1]"
    by (simp add: sends_def send_at_def receive_at_def ITC_SEND_def ITC_RECV_def upt_rec)
  moreover have "receive_table [receive_at r v, send_at s u] (pair_key (send_at s u)) = Some [0]"
    by (simp add: receive_table_def receives_def send_at_def receive_at_def ITC_SEND_def
        ITC_RECV_def pair_key_def upt_rec)
  ultimately show ?thesis
    using assms by (simp add: find_pairs_eq unpaired_def is_pair_def)
qed

text \<open>The timestamps of the events of the examples.\<close>

lemma timestamp_whole:
  "\<bar>s\<bar> < 2 ^ 53 \<Longrightarrow> timestamp (send_at s 0) = Inr (Finite (of_int s))"
  "\<bar>s\<bar> < 2 ^ 53 \<Longrightarrow> timestamp (receive_at s 0) = Inr (Finite (of_int s))"
  by (simp_all add: timestamp_whole_second send_at_def receive_at_def)

lemma timestamp_5_16:
  assumes "seconds e = 5" "microseconds e = 16"
  shows "timestamp e = Inr (Finite (5629517548611629 / 2 ^ 50))"
proof -
  have "float_of_int 16 = Inr 16" "float_of_int 5 = Inr 5"
    using float_of_int_exact [of 16] float_of_int_exact [of 5] by simp_all
  then show ?thesis
    using assms fraction_16 sum_5_16
    by (simp add: timestamp_def int_truediv_float_def int_add_float_def)
qed

lemma timestamp_4_1000016:
  assumes "seconds e = 4" "microseconds e = 1000016"
  shows "timestamp e = Inr (Finite (5629517548611630 / 2 ^ 50))"
proof -
  have "float_of_int 1000016 = Inr 1000016" "float_of_int 4 = Inr 4"
    using float_of_int_exact [of 1000016] float_of_int_exact [of 4] by simp_all
  then show ?thesis
    using assms fraction_1000016 sum_4_1000016
    by (simp add: timestamp_def int_truediv_float_def int_add_float_def)
qed

lemma timestamp_3_2000017:
  assumes "seconds e = 3" "microseconds e = 2000017"
  shows "timestamp e = Inr (Finite (5629518674511536 / 2 ^ 50))"
proof -
  have "float_of_int 2000017 = Inr 2000017" "float_of_int 3 = Inr 3"
    using float_of_int_exact [of 2000017] float_of_int_exact [of 3] by simp_all
  then show ?thesis
    using assms fraction_2000017 sum_3_2000017
    by (simp add: timestamp_def int_truediv_float_def int_add_float_def)
qed

section \<open>Pairing a second time\<close>









text \<open>
  The rounding of the timestamps can also make a second run differ. Two Receives,
  stamped 3 seconds and 2000017 microseconds and 4 seconds and 1000016 microseconds,
  are followed by a Send with their key stamped 5 seconds and 16 microseconds. No
  Receive is later than the Send by more than a microsecond, and the second one is at
  the instant of the Send, but its double is the larger one: the first run links the
  Send with the first Receive, the second run with the second.
\<close>

lemma second_run_rounding:
  "find_pairs [receive_at 3 2000017, receive_at 4 1000016, send_at 5 16]
       (unpaired [receive_at 3 2000017, receive_at 4 1000016, send_at 5 16])
     = Inr [Some 2, None, Some 0]
   \<and> find_pairs [receive_at 3 2000017, receive_at 4 1000016, send_at 5 16]
       [Some 2, None, Some 0]
     = Inr [Some 2, Some 2, Some 1]"
proof -
  let ?es = "[receive_at 3 2000017, receive_at 4 1000016, send_at 5 16]"
  have "sends ?es = [2]"
    by (simp add: sends_def send_at_def receive_at_def ITC_SEND_def ITC_RECV_def upt_rec)
  moreover have "receive_table ?es (pair_key (send_at 5 16)) = Some [0, 1]"
    by (simp add: receive_table_def receives_def send_at_def receive_at_def ITC_SEND_def
        ITC_RECV_def pair_key_def upt_rec)
  moreover have "timestamp (receive_at 3 2000017) = Inr (Finite (5629518674511536 / 2 ^ 50))"
    by (rule timestamp_3_2000017; simp add: receive_at_def)
  moreover have "timestamp (receive_at 4 1000016) = Inr (Finite (5629517548611630 / 2 ^ 50))"
    by (rule timestamp_4_1000016; simp add: receive_at_def)
  moreover have "timestamp (send_at 5 16) = Inr (Finite (5629517548611629 / 2 ^ 50))"
    by (rule timestamp_5_16; simp add: send_at_def)
  ultimately show ?thesis
    by (simp add: find_pairs_eq unpaired_def is_pair_def)
qed

section \<open>Pairing: when a Send and a Receive are linked\<close>

text \<open>
  Claim C7, as the code has it. After \<^verbatim>\<open>find_pairs\<close> on entries that carry no links,
  whenever entry \<open>i\<close> is linked to entry \<open>j\<close>, the two have the same key
  \<open>(signo, sender, receiver, procId, connId)\<close>, one of them is a Send and the other a
  Receive, and the double precision value of \<^verbatim>\<open>seconds + microseconds/1e6\<close> of the Send
  is strictly less than that of the Receive. When both entries have their
  microseconds from 0 to 999999 and their seconds below \<open>2 ^ 53\<close> in magnitude, the
  Send is then strictly earlier as an exact number of microseconds. A Send and a
  Receive with the same key stay unlinked at \<open>t = 5\<close> and \<open>t = 5\<close>, and at \<open>t = 5.000016\<close>
  and \<open>t = 5.000016\<close>; they are linked to each other at \<open>t = 5\<close> and \<open>t = 6\<close>, and at
  \<open>t = 5\<close> and \<open>t = 5.000016\<close>.
\<close>

theorem linked_only_if_same_key_and_earlier_double:
  "(find_pairs entries (unpaired entries) = Inr links \<and> i < length entries
      \<and> links ! i = Some j
    \<longrightarrow> j < length entries
        \<and> signo (entries ! i) = signo (entries ! j)
        \<and> sender (entries ! i) = sender (entries ! j)
        \<and> receiver (entries ! i) = receiver (entries ! j)
        \<and> procId (entries ! i) = procId (entries ! j)
        \<and> connId (entries ! i) = connId (entries ! j)
        \<and> (type (entries ! i) = ITC_SEND \<and> type (entries ! j) = ITC_RECV
             \<and> (\<exists>sent received. timestamp (entries ! i) = Inr sent
                   \<and> timestamp (entries ! j) = Inr received \<and> float_less sent received)
             \<and> (normal_time (entries ! i) \<and> normal_time (entries ! j)
                  \<longrightarrow> instant (entries ! i) < instant (entries ! j))
           \<or> type (entries ! i) = ITC_RECV \<and> type (entries ! j) = ITC_SEND
             \<and> (\<exists>sent received. timestamp (entries ! j) = Inr sent
                   \<and> timestamp (entries ! i) = Inr received \<and> float_less sent received)
             \<and> (normal_time (entries ! i) \<and> normal_time (entries ! j)
                  \<longrightarrow> instant (entries ! j) < instant (entries ! i))))
   \<and> find_pairs [send_at 5 0, receive_at 5 0] (unpaired [send_at 5 0, receive_at 5 0])
       = Inr [None, None]
   \<and> find_pairs [send_at 5 0, receive_at 6 0] (unpaired [send_at 5 0, receive_at 6 0])
       = Inr [Some 1, Some 0]
   \<and> find_pairs [send_at 5 16, receive_at 5 16] (unpaired [send_at 5 16, receive_at 5 16])
       = Inr [None, None]
   \<and> find_pairs [send_at 5 0, receive_at 5 16] (unpaired [send_at 5 0, receive_at 5 16])
       = Inr [Some 1, Some 0]"
proof (intro conjI impI)
  assume a: "find_pairs entries (unpaired entries) = Inr links \<and> i < length entries
      \<and> links ! i = Some j"
  then have "links_ok entries links" by (simp add: find_pairs_links_ok)
  then have ok: "link_ok entries i j" using a by (simp add: links_ok_def)
  then show "j < length entries" by (simp add: link_ok_def)
  from ok have k: "pair_key (entries ! i) = pair_key (entries ! j)" by (simp add: link_ok_def)
  from k show "signo (entries ! i) = signo (entries ! j)" by (simp add: pair_key_def)
  from k show "sender (entries ! i) = sender (entries ! j)" by (simp add: pair_key_def)
  from k show "receiver (entries ! i) = receiver (entries ! j)" by (simp add: pair_key_def)
  from k show "procId (entries ! i) = procId (entries ! j)" by (simp add: pair_key_def)
  from k show "connId (entries ! i) = connId (entries ! j)" by (simp add: pair_key_def)
  have e: "(\<exists>sent received. timestamp x = Inr sent \<and> timestamp y = Inr received
        \<and> float_less sent received)
      \<and> (normal_time x \<and> normal_time y \<longrightarrow> instant x < instant y)"
    if "earlier x y" for x y
    using that earlier_normal [of x y] by (auto simp: earlier_def split: sum.splits)
  from ok e [of "entries ! i" "entries ! j"] e [of "entries ! j" "entries ! i"]
  show "type (entries ! i) = ITC_SEND \<and> type (entries ! j) = ITC_RECV
             \<and> (\<exists>sent received. timestamp (entries ! i) = Inr sent
                   \<and> timestamp (entries ! j) = Inr received \<and> float_less sent received)
             \<and> (normal_time (entries ! i) \<and> normal_time (entries ! j)
                  \<longrightarrow> instant (entries ! i) < instant (entries ! j))
           \<or> type (entries ! i) = ITC_RECV \<and> type (entries ! j) = ITC_SEND
             \<and> (\<exists>sent received. timestamp (entries ! j) = Inr sent
                   \<and> timestamp (entries ! i) = Inr received \<and> float_less sent received)
             \<and> (normal_time (entries ! i) \<and> normal_time (entries ! j)
                  \<longrightarrow> instant (entries ! j) < instant (entries ! i))"
    unfolding link_ok_def by blast
next
  show "find_pairs [send_at 5 0, receive_at 5 0] (unpaired [send_at 5 0, receive_at 5 0])
       = Inr [None, None]"
    using find_pairs_two [of 5 0 "Finite 5" 5 0 "Finite 5"] timestamp_whole [of 5] by simp
next
  show "find_pairs [send_at 5 0, receive_at 6 0] (unpaired [send_at 5 0, receive_at 6 0])
       = Inr [Some 1, Some 0]"
    using find_pairs_two [of 5 0 "Finite 5" 6 0 "Finite 6"] timestamp_whole [of 5]
      timestamp_whole [of 6] by simp
next
  have "timestamp (send_at 5 16) = Inr (Finite (5629517548611629 / 2 ^ 50))"
    "timestamp (receive_at 5 16) = Inr (Finite (5629517548611629 / 2 ^ 50))"
    by (rule timestamp_5_16; simp add: send_at_def receive_at_def)+
  from find_pairs_two [OF this]
  show "find_pairs [send_at 5 16, receive_at 5 16] (unpaired [send_at 5 16, receive_at 5 16])
       = Inr [None, None]"
    by simp
next
  have "timestamp (send_at 5 0) = Inr (Finite 5)"
    using timestamp_whole [of 5] by simp
  moreover have "timestamp (receive_at 5 16) = Inr (Finite (5629517548611629 / 2 ^ 50))"
    by (rule timestamp_5_16; simp add: receive_at_def)
  ultimately show
    "find_pairs [send_at 5 0, receive_at 5 16] (unpaired [send_at 5 0, receive_at 5 16])
       = Inr [Some 1, Some 0]"
    using find_pairs_two [of 5 0 "Finite 5" 5 16 "Finite (5629517548611629 / 2 ^ 50)"] by simp
qed

theorem linked_only_if_same_key_and_earlier_double_witness:
  "find_pairs [send_at 5 0, receive_at 5 16] (unpaired [send_at 5 0, receive_at 5 16])
     = Inr [Some 1, Some 0]
   \<and> (0 :: nat) < length [send_at 5 0, receive_at 5 16]
   \<and> [Some 1, Some 0] ! 0 = Some (1 :: nat)
   \<and> signo ([send_at 5 0, receive_at 5 16] ! 0) = signo ([send_at 5 0, receive_at 5 16] ! 1)
   \<and> type ([send_at 5 0, receive_at 5 16] ! 0) = ITC_SEND
   \<and> type ([send_at 5 0, receive_at 5 16] ! 1) = ITC_RECV
   \<and> (\<exists>sent received. timestamp ([send_at 5 0, receive_at 5 16] ! 0) = Inr sent
         \<and> timestamp ([send_at 5 0, receive_at 5 16] ! 1) = Inr received
         \<and> float_less sent received)
   \<and> normal_time ([send_at 5 0, receive_at 5 16] ! 0)
   \<and> normal_time ([send_at 5 0, receive_at 5 16] ! 1)
   \<and> instant ([send_at 5 0, receive_at 5 16] ! 0) < instant ([send_at 5 0, receive_at 5 16] ! 1)"
proof -
  let ?es = "[send_at 5 0, receive_at 5 16]"
  have t: "type (?es ! 0) = ITC_SEND" "type (?es ! 0) \<noteq> ITC_RECV"
    "normal_time (?es ! 0)" "normal_time (?es ! 1)"
    by (simp_all add: send_at_def receive_at_def ITC_SEND_def ITC_RECV_def normal_time_def)
  from linked_only_if_same_key_and_earlier_double [of ?es "[Some 1, Some 0]" 0 1]
  have run: "find_pairs ?es (unpaired ?es) = Inr [Some 1, Some 0]" by blast
  from linked_only_if_same_key_and_earlier_double [of ?es "[Some 1, Some 0]" 0 1] run t
  show ?thesis by simp
qed

text \<open>
  The claim as the specification states it fails: the comparison is made on rounded
  numbers. A Receive stamped 4 seconds and 1000016 microseconds and a Send stamped
  5 seconds and 16 microseconds, with one key, happen at the same instant. The doubles
  computed for them are \<open>5629517548611630 / 2 ^ 50\<close> and \<open>5629517548611629 / 2 ^ 50\<close>,
  so the Send counts as earlier and the two are linked.
\<close>

theorem equal_instants_linked_counterexample:
  "find_pairs [receive_at 4 1000016, send_at 5 16] (unpaired [receive_at 4 1000016, send_at 5 16])
     = Inr [Some 1, Some 0]
   \<and> seconds (send_at 5 16) * 1000000 + microseconds (send_at 5 16)
     = seconds (receive_at 4 1000016) * 1000000 + microseconds (receive_at 4 1000016)
   \<and> timestamp (send_at 5 16) = Inr (Finite (5629517548611629 / 2 ^ 50))
   \<and> timestamp (receive_at 4 1000016) = Inr (Finite (5629517548611630 / 2 ^ 50))
   \<and> pair_key (send_at 5 16) = pair_key (receive_at 4 1000016)"
proof -
  have s: "timestamp (send_at 5 16) = Inr (Finite (5629517548611629 / 2 ^ 50))"
    by (rule timestamp_5_16; simp add: send_at_def)
  have r: "timestamp (receive_at 4 1000016) = Inr (Finite (5629517548611630 / 2 ^ 50))"
    by (rule timestamp_4_1000016; simp add: receive_at_def)
  have "seconds (send_at 5 16) * 1000000 + microseconds (send_at 5 16)
     = seconds (receive_at 4 1000016) * 1000000 + microseconds (receive_at 4 1000016)"
    "pair_key (send_at 5 16) = pair_key (receive_at 4 1000016)"
    by (simp_all add: send_at_def receive_at_def pair_key_def)
  then show ?thesis using find_pairs_two_rev [OF s r] s r by simp
qed

section \<open>Pairing raises no lookup error\<close>

text \<open>
  Claim C9, as the code has it. \<^verbatim>\<open>find_pairs\<close> raises no lookup error, whatever the
  entries and the links they carry: the table \<^verbatim>\<open>rx_map\<close> has a key for every entry. It
  either returns or raises the \<^verbatim>\<open>OverflowError\<close> of a timestamp, and it returns when
  the seconds and the microseconds of every entry are below \<open>2 ^ 1023\<close> in magnitude.
  For a Send whose key no Receive has, the table holds the empty list of candidates,
  and a run that returns leaves the Send without a link.
\<close>

theorem find_pairs_no_lookup_error:
  "((\<exists>links'. find_pairs entries links = Inr links')
      \<or> find_pairs entries links = Inl OverflowError)
   \<and> ((\<forall>k < length entries. \<bar>seconds (entries ! k)\<bar> < 2 ^ 1023
          \<and> \<bar>microseconds (entries ! k)\<bar> < 2 ^ 1023)
      \<longrightarrow> (\<exists>links'. find_pairs entries links = Inr links'))
   \<and> (i < length entries \<and> type (entries ! i) = ITC_SEND
        \<and> (\<forall>j < length entries. type (entries ! j) = ITC_RECV
              \<longrightarrow> pair_key (entries ! j) \<noteq> pair_key (entries ! i))
      \<longrightarrow> fill_rx_map entries
             (filter (\<lambda>i. type (entries ! i) = ITC_RECV) [0..<length entries])
             (\<lambda>k. if k \<in> set (map pair_key entries) then Some [] else None)
           = Inr (receive_table entries)
         \<and> receive_table entries (pair_key (entries ! i)) = Some []
         \<and> possible_pairs entries links i [] = Inr []
         \<and> (\<forall>links'. find_pairs entries (unpaired entries) = Inr links'
               \<longrightarrow> links' ! i = None))"
proof (intro conjI impI allI)
  show "(\<exists>links'. find_pairs entries links = Inr links')
      \<or> find_pairs entries links = Inl OverflowError"
    using pair_loop_result [of "sends entries" entries links] by (simp add: find_pairs_eq)
next
  assume "\<forall>k < length entries. \<bar>seconds (entries ! k)\<bar> < 2 ^ 1023
          \<and> \<bar>microseconds (entries ! k)\<bar> < 2 ^ 1023"
  then have "\<forall>k < length entries. \<exists>a. timestamp (entries ! k) = Inr a"
    using timestamp_total by blast
  from pair_loop_total [OF this, of "sends entries" links]
  show "\<exists>links'. find_pairs entries links = Inr links'"
    by (simp add: find_pairs_eq)
next
  assume a: "i < length entries \<and> type (entries ! i) = ITC_SEND
        \<and> (\<forall>j < length entries. type (entries ! j) = ITC_RECV
              \<longrightarrow> pair_key (entries ! j) \<noteq> pair_key (entries ! i))"
  let ?m = "\<lambda>k. if k \<in> set (map pair_key entries) then Some [] else None"
  have "\<forall>j \<in> set (receives entries). ?m (pair_key (entries ! j)) \<noteq> None"
    by (auto simp: receives_def)
  from fill_rx_map_eq [OF this]
  show "fill_rx_map entries
          (filter (\<lambda>i. type (entries ! i) = ITC_RECV) [0..<length entries]) ?m
        = Inr (receive_table entries)"
    by (simp add: receive_table_def receives_def if_distrib cong: if_cong)
  have i: "i \<in> set (sends entries)" using a by (simp add: sends_def)
  have "filter (\<lambda>j. pair_key (entries ! j) = pair_key (entries ! i)) (receives entries) = []"
    using a by (auto simp: receives_def filter_empty_conv)
  then show "receive_table entries (pair_key (entries ! i)) = Some []"
    by (simp add: receive_table_sends [OF i])
  show "possible_pairs entries links i [] = Inr []" by simp
  fix links'
  assume r: "find_pairs entries (unpaired entries) = Inr links'"
  have ok: "links_ok entries links'" using r by (rule find_pairs_links_ok)
  show "links' ! i = None"
  proof (cases "links' ! i")
    case None
    then show ?thesis .
  next
    case (Some j)
    then have "link_ok entries i j" using ok a by (simp add: links_ok_def)
    then have False
      using a by (auto simp: link_ok_def ITC_SEND_def ITC_RECV_def)
    then show ?thesis ..
  qed
qed

theorem find_pairs_no_lookup_error_witness:
  "(0 :: nat) < length [send_at 5 16, (receive_at 6 0)\<lparr>signo := 0x17002\<rparr>]
   \<and> type ([send_at 5 16, (receive_at 6 0)\<lparr>signo := 0x17002\<rparr>] ! 0) = ITC_SEND
   \<and> type ([send_at 5 16, (receive_at 6 0)\<lparr>signo := 0x17002\<rparr>] ! 1) = ITC_RECV
   \<and> pair_key ([send_at 5 16, (receive_at 6 0)\<lparr>signo := 0x17002\<rparr>] ! 1)
       \<noteq> pair_key ([send_at 5 16, (receive_at 6 0)\<lparr>signo := 0x17002\<rparr>] ! 0)
   \<and> receive_table [send_at 5 16, (receive_at 6 0)\<lparr>signo := 0x17002\<rparr>]
        (pair_key ([send_at 5 16, (receive_at 6 0)\<lparr>signo := 0x17002\<rparr>] ! 0)) = Some []
   \<and> (\<exists>links'. find_pairs [send_at 5 16, (receive_at 6 0)\<lparr>signo := 0x17002\<rparr>]
          (unpaired [send_at 5 16, (receive_at 6 0)\<lparr>signo := 0x17002\<rparr>]) = Inr links'
        \<and> links' ! 0 = None)"
proof -
  let ?es = "[send_at 5 16, (receive_at 6 0)\<lparr>signo := 0x17002\<rparr>]"
  have h: "(0 :: nat) < length ?es \<and> type (?es ! 0) = ITC_SEND
      \<and> (\<forall>j < length ?es. type (?es ! j) = ITC_RECV
            \<longrightarrow> pair_key (?es ! j) \<noteq> pair_key (?es ! 0))"
    by (simp add: send_at_def receive_at_def pair_key_def ITC_SEND_def ITC_RECV_def
        less_Suc_eq)
  have g: "type (?es ! 1) = ITC_RECV \<and> pair_key (?es ! 1) \<noteq> pair_key (?es ! 0)"
    by (simp add: send_at_def receive_at_def pair_key_def ITC_RECV_def)
  have b: "\<forall>k < length ?es. \<bar>seconds (?es ! k)\<bar> < 2 ^ 1023
          \<and> \<bar>microseconds (?es ! k)\<bar> < 2 ^ 1023"
    by (simp add: send_at_def receive_at_def less_Suc_eq)
  from find_pairs_no_lookup_error [of ?es "unpaired ?es" 0] h g b show ?thesis by blast
qed

text \<open>
  The claim as the specification states it fails: the operation is not total. A text
  trace may hold a number of any length, which \<^verbatim>\<open>int\<close> reads exactly. With a Send and a
  Receive of one key whose seconds are \<open>10 ^ 400\<close>, the timestamp of the Send cannot be
  computed: the conversion of the seconds to a float raises \<^verbatim>\<open>OverflowError\<close>, and so
  does \<^verbatim>\<open>find_pairs\<close>.
\<close>

theorem find_pairs_overflow_counterexample:
  "find_pairs [far_send, far_receive] (unpaired [far_send, far_receive]) = Inl OverflowError
   \<and> timestamp far_send = Inl OverflowError
   \<and> float_of_int (seconds far_send) = Inl OverflowError"
proof -
  have f: "float_of_int (10 ^ 400) = Inl OverflowError"
    by (rule float_of_int_huge) simp
  have "float_of_int 0 = Inr 0" using float_of_int_exact [of 0] by simp
  then have t: "timestamp far_send = Inl OverflowError"
    using f by (simp add: timestamp_def int_truediv_float_def int_add_float_def far_send_def
        send_at_def round_double_def)
  have "sends [far_send, far_receive] = [0]"
    by (simp add: sends_def far_send_def far_receive_def send_at_def receive_at_def
        ITC_SEND_def ITC_RECV_def upt_rec)
  moreover have "receive_table [far_send, far_receive] (pair_key far_send) = Some [1]"
    by (simp add: receive_table_def receives_def far_send_def far_receive_def send_at_def
        receive_at_def ITC_SEND_def ITC_RECV_def pair_key_def upt_rec)
  ultimately have "find_pairs [far_send, far_receive] (unpaired [far_send, far_receive])
      = Inl OverflowError"
    using t by (simp add: find_pairs_eq unpaired_def is_pair_def)
  moreover have "float_of_int (seconds far_send) = Inl OverflowError"
    using f by (simp add: far_send_def send_at_def)
  ultimately show ?thesis using t by simp
qed

section \<open>Filter expressions: the tokens of the example\<close>

lemma cfm_filter_tokens:
  "finditer filter_regex cfm_filter =
     [[(''str'', ''cfm$''), (''ex'', ''-'')],
      [(''hex2'', ''0x17fff''), (''hex'', ''0x17000'')],
      [(''hex'', ''0x17a34''), (''ex'', ''-'')]]"
  by code_simp

lemma cfm_filter_numbers:
  "py_int 16 ''0x17000'' = Inr 0x17000"
  "py_int 16 ''0x17fff'' = Inr 0x17fff"
  "py_int 16 ''0x17a34'' = Inr 0x17a34"
  by code_simp+

lemma cfm_filter_sets:
  assumes "re_compile ''cfm$'' = Some expr"
  shows "filter_ids re_compile (Some cfm_filter) idset idmap =
     Inr (((idset - {s \<in> idset. expr (case idmap s of Some name \<Rightarrow> name | None \<Rightarrow> ''<unknown>'')})
            \<union> {s \<in> idset. 0x17000 \<le> s \<and> s \<le> 0x17fff}) - {0x17a34},
          {s \<in> idset. expr (case idmap s of Some name \<Rightarrow> name | None \<Rightarrow> ''<unknown>'')}
            \<union> {s \<in> idset. s = 0x17a34})"
proof -
  let ?m1 = "\<lambda>s. expr (case idmap s of Some name \<Rightarrow> name | None \<Rightarrow> ''<unknown>'')"
  let ?m2 = "\<lambda>s :: int. s \<ge> 0x17000 \<and> s \<le> 0x17fff"
  let ?m3 = "\<lambda>s :: int. s \<ge> 0x17a34 \<and> s \<le> 0x17a34"
  have t1: "token_matcher re_compile idmap [(''str'', ''cfm$''), (''ex'', ''-'')] = Inr ?m1"
    using assms by (simp add: token_matcher_def group_def truthy_def)
  have t2: "token_matcher re_compile idmap [(''hex2'', ''0x17fff''), (''hex'', ''0x17000'')]
      = Inr ?m2"
    by (simp add: token_matcher_def group_def truthy_def range_matcher_def cfm_filter_numbers)
  have t3: "token_matcher re_compile idmap [(''hex'', ''0x17a34''), (''ex'', ''-'')] = Inr ?m3"
    by (simp add: token_matcher_def group_def truthy_def range_matcher_def cfm_filter_numbers)
  have ne: "cfm_filter \<noteq> []" by (simp add: cfm_filter_def)
  have "filter_ids re_compile (Some cfm_filter) idset idmap =
     Inr (((idset - {s \<in> idset. ?m1 s}) \<union> {s \<in> idset. ?m2 s})
            - {s \<in> (idset - {s \<in> idset. ?m1 s}) \<union> {s \<in> idset. ?m2 s}. ?m3 s},
          ({} \<union> {s \<in> idset. ?m1 s}) \<union> {s \<in> idset. ?m3 s})"
    by (simp add: filter_ids_def ne cfm_filter_tokens Let_def t1 t2 t3 group_def
        del: Un_empty_left)
  moreover have "((idset - {s \<in> idset. ?m1 s}) \<union> {s \<in> idset. ?m2 s})
            - {s \<in> (idset - {s \<in> idset. ?m1 s}) \<union> {s \<in> idset. ?m2 s}. ?m3 s}
      = ((idset - {s \<in> idset. ?m1 s}) \<union> {s \<in> idset. ?m2 s}) - {0x17a34}"
    by auto
  moreover have "({} \<union> {s \<in> idset. ?m1 s}) \<union> {s \<in> idset. ?m3 s}
      = {s \<in> idset. ?m1 s} \<union> {s \<in> idset. s = 0x17a34}"
    by auto
  ultimately show ?thesis by simp
qed

lemma cfm_compile: "re_compile_suffix ''cfm$'' = Some (suffix_search ''cfm'')"
  by (simp add: re_compile_suffix_def is_plain_def)

lemma cfm_search:
  "suffix_search ''cfm'' ''FOO_CFM''"
  "\<not> suffix_search ''cfm'' ''<unknown>''"
  by code_simp+

lemma cfm_filter_result:
  "filter_ids re_compile_suffix (Some cfm_filter) cfm_universe cfm_names
     = Inr ({0x17000, 0x17001, 0x18000}, {0x17000, 0x17a34})"
proof -
  have n: "(case cfm_names s of Some name \<Rightarrow> name | None \<Rightarrow> ''<unknown>'')
      = (if s = 0x17000 then ''FOO_CFM'' else ''<unknown>'')" for s
    by (simp add: cfm_names_def)
  have m: "suffix_search ''cfm'' (case cfm_names s of Some name \<Rightarrow> name | None \<Rightarrow> ''<unknown>'')
      = (s = 0x17000)" for s
    unfolding n using cfm_search by simp
  show ?thesis
    unfolding cfm_filter_sets [of re_compile_suffix "suffix_search ''cfm''", OF cfm_compile] m
    by (auto simp: cfm_universe_def)
qed

section \<open>Filter expressions: the example of the source\<close>

text \<open>
  Claim C1, as the code has it. The filter starts with a negation, so the selection
  starts from all ids. \<^verbatim>\<open>-cfm$\<close> removes \<open>0x17000\<close> and records it as excluded; the
  range \<^verbatim>\<open>0x17000-0x17fff\<close> then adds it to the selection again; \<^verbatim>\<open>-0x17a34\<close> removes
  \<open>0x17a34\<close> and records it. So \<open>0x17000\<close> is selected and excluded at once, \<open>0x17001\<close> is
  selected, \<open>0x17a34\<close> is not, and \<open>0x18000\<close>, which no token touches unless its name
  ends in cfm, stays selected.
\<close>

theorem cfm_filter_selection:
  assumes "re_compile ''cfm$'' = Some expr"
    and "idmap 0x17000 = Some ''FOO_CFM''"
    and "expr ''FOO_CFM''"
  shows "\<exists>selected unselected.
     filter_ids re_compile (Some cfm_filter) cfm_universe idmap = Inr (selected, unselected)
     \<and> 0x17000 \<in> selected \<and> 0x17000 \<in> unselected
     \<and> 0x17001 \<in> selected
     \<and> 0x17a34 \<notin> selected \<and> 0x17a34 \<in> unselected
     \<and> (0x18000 \<in> selected)
         = (\<not> expr (case idmap 0x18000 of Some name \<Rightarrow> name | None \<Rightarrow> ''<unknown>''))"
  unfolding cfm_filter_sets [of re_compile expr, OF assms(1)]
  using assms(2,3) by (simp add: cfm_universe_def)

theorem cfm_filter_selection_witness:
  "re_compile_suffix ''cfm$'' = Some (suffix_search ''cfm'')
   \<and> cfm_names 0x17000 = Some ''FOO_CFM''
   \<and> suffix_search ''cfm'' ''FOO_CFM''
   \<and> (\<exists>selected unselected.
        filter_ids re_compile_suffix (Some cfm_filter) cfm_universe cfm_names
          = Inr (selected, unselected)
        \<and> 0x17000 \<in> selected \<and> 0x17000 \<in> unselected \<and> 0x17001 \<in> selected
        \<and> 0x17a34 \<notin> selected \<and> 0x17a34 \<in> unselected \<and> 0x18000 \<in> selected)"
proof -
  have n: "cfm_names 0x17000 = Some ''FOO_CFM''" and u: "cfm_names 0x18000 = None"
    by (simp_all add: cfm_names_def)
  from cfm_filter_selection
    [of re_compile_suffix "suffix_search ''cfm''" cfm_names, OF cfm_compile n cfm_search(1)]
    cfm_compile cfm_search n u
  show ?thesis by simp
qed

text \<open>
  The claim as the specification states it fails: the evaluation selects \<open>0x17000\<close>
  and \<open>0x18000\<close>, which the claim says are excluded.
\<close>

theorem cfm_filter_counterexample:
  "filter_ids re_compile_suffix (Some cfm_filter) cfm_universe cfm_names
     = Inr ({0x17000, 0x17001, 0x18000}, {0x17000, 0x17a34})
   \<and> 0x17000 \<in> {0x17000, 0x17001, 0x18000 :: int}
   \<and> 0x18000 \<in> {0x17000, 0x17001, 0x18000 :: int}"
  using cfm_filter_result by simp

section \<open>Filter expressions: the result lies within the universe\<close>

lemma filter_loop_within:
  "selected \<subseteq> idset \<Longrightarrow> unselected \<subseteq> idset \<Longrightarrow>
   filter_loop re_compile idset idmap n ms (selected, unselected) = Inr (selected', unselected')
   \<Longrightarrow> selected' \<subseteq> idset \<and> unselected' \<subseteq> idset"
proof (induction ms arbitrary: n selected unselected)
  case Nil
  then show ?case by simp
next
  case (Cons m ms)
  let ?sel = "if n = 1 \<and> group m ''ex'' \<noteq> Some ''-'' then {} else selected"
  have sel: "?sel \<subseteq> idset" using Cons.prems(1) by simp
  obtain matcher where tm: "token_matcher re_compile idmap m = Inr matcher"
    using Cons.prems(3) by (cases "token_matcher re_compile idmap m") (simp_all add: Let_def)
  consider (minus) "group m ''ex'' = Some ''-''"
    | (tilde) "group m ''ex'' \<noteq> Some ''-''" "group m ''ex'' = Some ''~''"
    | (plain) "group m ''ex'' \<noteq> Some ''-''" "group m ''ex'' \<noteq> Some ''~''"
    by blast
  then show ?case
  proof cases
    case minus
    then have "filter_loop re_compile idset idmap (n + 1) ms
        (?sel - {s \<in> ?sel. matcher s}, unselected \<union> {s \<in> idset. matcher s})
        = Inr (selected', unselected')"
      using Cons.prems(3) tm by (simp add: Let_def)
    moreover have "?sel - {s \<in> ?sel. matcher s} \<subseteq> idset" using sel by blast
    moreover have "unselected \<union> {s \<in> idset. matcher s} \<subseteq> idset"
      using Cons.prems(2) by blast
    ultimately show ?thesis using Cons.IH by blast
  next
    case tilde
    then have "filter_loop re_compile idset idmap (n + 1) ms
        ({s \<in> ?sel. matcher s}, unselected) = Inr (selected', unselected')"
      using Cons.prems(3) tm by (simp add: Let_def)
    moreover have "{s \<in> ?sel. matcher s} \<subseteq> idset" using sel by blast
    ultimately show ?thesis using Cons.IH Cons.prems(2) by blast
  next
    case plain
    then have "filter_loop re_compile idset idmap (n + 1) ms
        (?sel \<union> {s \<in> idset. matcher s}, unselected) = Inr (selected', unselected')"
      using Cons.prems(3) tm by (simp add: Let_def)
    moreover have "?sel \<union> {s \<in> idset. matcher s} \<subseteq> idset" using sel by blast
    ultimately show ?thesis using Cons.IH Cons.prems(2) by blast
  qed
qed

text \<open>
  Claim C10. Whatever the filter, the ids and the names are, both sets that
  \<^verbatim>\<open>filter_ids\<close> returns are subsets of the ids it was given.
\<close>

theorem filter_ids_within_universe:
  assumes "filter_ids re_compile filter_text idset idmap = Inr (selected, unselected)"
  shows "selected \<subseteq> idset \<and> unselected \<subseteq> idset"
proof (cases "filter_text = None \<or> filter_text = Some []")
  case True
  then show ?thesis using assms by (auto simp: filter_ids_def)
next
  case False
  then obtain expression where t: "filter_text = Some expression" "expression \<noteq> []"
    by (cases filter_text) auto
  then have "filter_loop re_compile idset idmap 1 (finditer filter_regex expression) (idset, {})
      = Inr (selected, unselected)"
    using assms by (simp add: filter_ids_def)
  from filter_loop_within [OF _ _ this] show ?thesis by simp
qed

theorem filter_ids_within_universe_witness:
  "filter_ids re_compile_suffix (Some cfm_filter) cfm_universe cfm_names
     = Inr ({0x17000, 0x17001, 0x18000}, {0x17000, 0x17a34})
   \<and> {0x17000, 0x17001, 0x18000} \<subseteq> cfm_universe
   \<and> {0x17000, 0x17a34} \<subseteq> cfm_universe"
  using filter_ids_within_universe [OF cfm_filter_result] cfm_filter_result by simp

section \<open>Text traces: the repair of the legacy field\<close>

lemma legacy_token_length: "length legacy_token = 80"
  by code_simp

lemma legacy_token_pieces:
  "low_bytes (tl (split_sep [CHR 0x5C, CHR ''x''] [] legacy_token))
     = Inr [1, 2, 3, 4, 5, 6, 7, 8]"
  by code_simp

lemma legacy_token_repaired:
  "repair_hexdata legacy_token = Inr (Bytes [1, 2, 3, 4], Bytes [5, 6, 7, 8])"
  by code_simp

lemma legacy_line_entry:
  "read_text_line legacy_line =
     Inr (Some \<lparr>type = 0, source = 7, sender = 11, receiver = 12, seconds = 1700000000,
                microseconds = 250, signo = 0x17001,
                procId = Bytes [1, 2, 3, 4], connId = Bytes [5, 6, 7, 8]\<rparr>)"
  by code_simp

text \<open>
  Claim C8. A seventh field that is the legacy token (80 characters, so not 32) is
  repaired: each piece \<^verbatim>\<open>ffffffHH\<close> is reduced to its low byte, and the result is
  \<^verbatim>\<open>procId\<close> = bytes 1, 2, 3, 4 and \<^verbatim>\<open>connId\<close> = bytes 5, 6, 7, 8. The line
  \<open>legacy_line\<close> is read as the entry with these two values.
\<close>

theorem legacy_token_decodes:
  assumes "length flds = 6"
  shows "length legacy_token \<noteq> 32
   \<and> low_bytes (tl (split_sep [CHR 0x5C, CHR ''x''] [] legacy_token))
       = Inr [1, 2, 3, 4, 5, 6, 7, 8]
   \<and> hexdata_fields (flds @ [legacy_token]) = Inr (Bytes [1, 2, 3, 4], Bytes [5, 6, 7, 8])
   \<and> read_text [legacy_line] [] =
       Inr [\<lparr>type = 0, source = 7, sender = 11, receiver = 12, seconds = 1700000000,
              microseconds = 250, signo = 0x17001,
              procId = Bytes [1, 2, 3, 4], connId = Bytes [5, 6, 7, 8]\<rparr>]"
proof -
  have "(flds @ [legacy_token]) ! 6 = legacy_token"
    using assms by (simp add: nth_append)
  then have "hexdata_fields (flds @ [legacy_token]) = repair_hexdata legacy_token"
    using assms by (simp add: hexdata_fields_def legacy_token_length)
  moreover have "legacy_line \<noteq> []" by (simp add: legacy_line_def)
  ultimately show ?thesis
    by (simp add: legacy_token_length legacy_token_pieces legacy_token_repaired
        legacy_line_entry)
qed

theorem legacy_token_decodes_witness:
  "length [''1700000000.000250'', ''0'', ''7'', ''11'', ''12'', ''0x17001''] = 6
   \<and> hexdata_fields
        ([''1700000000.000250'', ''0'', ''7'', ''11'', ''12'', ''0x17001''] @ [legacy_token])
       = Inr (Bytes [1, 2, 3, 4], Bytes [5, 6, 7, 8])"
proof -
  have h: "length [''1700000000.000250'', ''0'', ''7'', ''11'', ''12'', ''0x17001''] = 6"
    by simp
  from legacy_token_decodes [OF h] h show ?thesis by blast
qed

end
